theory Spec2Isabelle
  imports Complex_Main "HOL-Library.Sublist" "HOL-Library.Multiset" "HOL-Library.Log_Nat"
    "HOL-Library.Word"
begin

section \<open>play-cli: the project resolution engine of \<^verbatim>\<open>src/utils.ts\<close>\<close>

subsection \<open>Strings\<close>

text \<open>
  A JavaScript string is a sequence of UTF-16 code units. \<^verbatim>\<open>length\<close>, indexing, \<^verbatim>\<open>===\<close>,
  \<^verbatim>\<open>includes\<close> and \<^verbatim>\<open>trim\<close> work on the code units. \<open>js s\<close> is the string of an ASCII
  literal \<open>s\<close>.
\<close>

type_synonym code_unit = "16 word"

type_synonym jsstring = "code_unit list"

definition js :: "string \<Rightarrow> jsstring" where
  "js s = map of_char s"

subsection \<open>JavaScript numbers of the page arithmetic\<close>

text \<open>
  \<^verbatim>\<open>paginateResults\<close> computes with JavaScript numbers. On integer arguments every
  intermediate value is an integer, except that a division by zero yields
  \<^verbatim>\<open>Infinity\<close> or \<^verbatim>\<open>NaN\<close>. The type \<open>number\<close> has these values; \<^verbatim>\<open>-0\<close> is identified
  with \<open>0\<close> (the two print and compare alike), and integers are taken as exact (they stay
  far below \<open>2^53\<close> for array lengths and page numbers).
\<close>

datatype number = Fin int | PosInf | NegInf | NaN

text \<open>\<^verbatim>\<open>Math.ceil(a / b)\<close> for integers \<open>a\<close>, \<open>b\<close>.\<close>

definition Math_ceil_div :: "int \<Rightarrow> int \<Rightarrow> number" where
  "Math_ceil_div a b =
     (if b = 0 then (if a = 0 then NaN else if 0 < a then PosInf else NegInf)
      else Fin (- ((- a) div b)))"

text \<open>\<^verbatim>\<open>Math.min(x, y)\<close>: \<^verbatim>\<open>NaN\<close> if either argument is.\<close>

fun Math_min :: "number \<Rightarrow> number \<Rightarrow> number" where
  "Math_min NaN _ = NaN"
| "Math_min _ NaN = NaN"
| "Math_min NegInf _ = NegInf"
| "Math_min _ NegInf = NegInf"
| "Math_min PosInf y = y"
| "Math_min x PosInf = x"
| "Math_min (Fin a) (Fin b) = Fin (min a b)"

text \<open>\<^verbatim>\<open>x - k\<close>, \<^verbatim>\<open>x + k\<close> and \<^verbatim>\<open>x * k\<close> for a number \<open>x\<close> and an integer \<open>k\<close>.\<close>

fun num_add :: "number \<Rightarrow> int \<Rightarrow> number" where
  "num_add (Fin a) k = Fin (a + k)"
| "num_add x k = x"

fun num_sub :: "number \<Rightarrow> int \<Rightarrow> number" where
  "num_sub (Fin a) k = Fin (a - k)"
| "num_sub x k = x"

fun num_mul :: "number \<Rightarrow> int \<Rightarrow> number" where
  "num_mul (Fin a) k = Fin (a * k)"
| "num_mul NaN k = NaN"
| "num_mul PosInf k = (if k = 0 then NaN else if 0 < k then PosInf else NegInf)"
| "num_mul NegInf k = (if k = 0 then NaN else if 0 < k then NegInf else PosInf)"

text \<open>
  \<^verbatim>\<open>Array.prototype.slice(start, end)\<close>: an index is first made an integer or an infinity
  (\<^verbatim>\<open>NaN\<close> becomes \<open>0\<close>); a negative one counts from the end; both are clipped to
  \<open>[0, length]\<close>; the result is empty when the end does not exceed the start.
\<close>

fun slice_index :: "nat \<Rightarrow> number \<Rightarrow> nat" where
  "slice_index len NaN = 0"
| "slice_index len NegInf = 0"
| "slice_index len PosInf = len"
| "slice_index len (Fin r) =
     (if r < 0 then nat (max (int len + r) 0) else nat (min r (int len)))"

definition Array_slice :: "'a list \<Rightarrow> number \<Rightarrow> number \<Rightarrow> 'a list" where
  "Array_slice xs start end =
     (let k = slice_index (length xs) start;
          final = slice_index (length xs) end
      in take (final - k) (drop k xs))"

subsection \<open>The paginator\<close>

record 'a Page =
  items :: "'a list"
  totalPages :: number
  currentPage :: number
  totalItems :: int

text \<open>
  \<^verbatim>\<open>paginateResults\<close>, with the page and the page size given as integers (the defaults 1 and
  10 of the source are those of a caller that leaves them out).
\<close>

definition paginateResults :: "'a list \<Rightarrow> int \<Rightarrow> int \<Rightarrow> 'a Page" where
  "paginateResults its page pageSize =
     (let totalItems = int (length its);
          totalPages = Math_ceil_div totalItems pageSize;
          currentPage = Math_min (Fin (max page 1)) totalPages;
          startIndex = num_mul (num_sub currentPage 1) pageSize;
          endIndex = num_add startIndex pageSize
      in \<lparr> items = Array_slice its startIndex endIndex,
           totalPages = totalPages,
           currentPage = currentPage,
           totalItems = totalItems \<rparr>)"

subsection \<open>Project records and the sort of arrays\<close>

text \<open>
  \<^verbatim>\<open>ProjectInfo\<close>. The modification time is a \<^verbatim>\<open>Date\<close> read from the file system; the
  model keeps its \<^verbatim>\<open>getTime()\<close>, an integral number of milliseconds.
\<close>

record ProjectInfo =
  name :: jsstring
  path :: jsstring
  fullPath :: jsstring
  modifiedTime :: int
  relativePath :: jsstring

text \<open>
  \<^verbatim>\<open>Array.prototype.sort(compareFn)\<close>. ECMAScript (2019 and later) requires the sort to be
  stable: \<open>a\<close> is placed before \<open>b\<close> when \<^verbatim>\<open>compareFn(a, b) < 0\<close>, after it when the value
  is positive, and the two keep their order when it is zero. For a consistent comparator
  this fixes the result; the model computes it by insertion from the right.
\<close>

fun sort_insert :: "('a \<Rightarrow> 'a \<Rightarrow> 'n::{zero,ord}) \<Rightarrow> 'a \<Rightarrow> 'a list \<Rightarrow> 'a list" where
  "sort_insert compareFn x [] = [x]"
| "sort_insert compareFn x (y # ys) =
     (if compareFn x y \<le> 0 then x # y # ys else y # sort_insert compareFn x ys)"

definition Array_sort :: "('a \<Rightarrow> 'a \<Rightarrow> 'n::{zero,ord}) \<Rightarrow> 'a list \<Rightarrow> 'a list" where
  "Array_sort compareFn xs = foldr (sort_insert compareFn) xs []"

text \<open>
  \<^verbatim>\<open>sortProjectsByDate\<close> on the value of its argument: \<^verbatim>\<open>[...projects]\<close> has the elements of
  \<open>projects\<close>, and the sort returns the sorted array.
\<close>

definition sortProjectsByDate :: "ProjectInfo list \<Rightarrow> ProjectInfo list" where
  "sortProjectsByDate projects =
     Array_sort (\<lambda>a b. modifiedTime b - modifiedTime a) projects"

text \<open>
  The same function over an explicit store of arrays, where a reference is an index into
  the store: the spread \<^verbatim>\<open>[...projects]\<close> allocates a new array, and \<^verbatim>\<open>sort\<close> overwrites
  the array it is called on and returns a reference to it.
\<close>

type_synonym 'a store = "'a list list"

definition spread :: "'a store \<Rightarrow> nat \<Rightarrow> 'a store \<times> nat" where
  "spread h r = (h @ [h ! r], length h)"

definition sort_in_place ::
    "('a \<Rightarrow> 'a \<Rightarrow> 'n::{zero,ord}) \<Rightarrow> 'a store \<Rightarrow> nat \<Rightarrow> 'a store \<times> nat" where
  "sort_in_place compareFn h r = (h[r := Array_sort compareFn (h ! r)], r)"

definition sortProjectsByDate_store :: "ProjectInfo store \<Rightarrow> nat \<Rightarrow> ProjectInfo store \<times> nat" where
  "sortProjectsByDate_store h projects =
     (let (h1, copy) = spread h projects
      in sort_in_place (\<lambda>a b. modifiedTime b - modifiedTime a) h1 copy)"

text \<open>
  \<^verbatim>\<open>getLatestProject\<close>; \<^verbatim>\<open>null\<close> is \<open>None\<close>. A project record is an object, hence truthy, so
  \<^verbatim>\<open>sorted[0] || null\<close> is \<^verbatim>\<open>null\<close> only when the sorted array has no first element.
\<close>

definition getLatestProject :: "ProjectInfo list \<Rightarrow> ProjectInfo option" where
  "getLatestProject projects =
     (if length projects = 0 then None
      else (case sortProjectsByDate projects of [] \<Rightarrow> None | p # _ \<Rightarrow> Some p))"

subsection \<open>Double-precision arithmetic of the scores\<close>

text \<open>
  A similarity score is an IEEE 754 double. A finite double is a rational number, and
  each arithmetic operation returns the exact result rounded to the nearest double, ties
  to the even significand. \<open>round_double\<close> is this rounding with a significand of 53 bits;
  the exponent is left unbounded, which agrees with the doubles on the values that occur
  here (quotients and differences of numbers bounded by string lengths: no overflow, no
  subnormal result).
\<close>

definition round_half_even :: "rat \<Rightarrow> int" where
  "round_half_even y =
     (let f = \<lfloor>y\<rfloor>; r = y - of_int f
      in if r < 1 / 2 then f else if 1 / 2 < r then f + 1 else if even f then f else f + 1)"

text \<open>\<open>ilog2 x\<close> is the exponent \<open>e\<close> with \<open>2\<^sup>e \<le> x < 2\<^sup>e\<^sup>+\<^sup>1\<close>, for \<open>0 < x\<close>.\<close>

definition ilog2 :: "rat \<Rightarrow> int" where
  "ilog2 x =
     (let (p, q) = quotient_of x; e = bitlen p - bitlen q
      in if 2 powi e \<le> x then e else e - 1)"

definition round_double :: "rat \<Rightarrow> rat" where
  "round_double x =
     (if x = 0 then 0
      else let e = ilog2 \<bar>x\<bar>; u = 2 powi (e - 52)
           in sgn x * of_int (round_half_even (\<bar>x\<bar> / u)) * u)"

definition fdiv :: "rat \<Rightarrow> rat \<Rightarrow> rat" where
  "fdiv a b = round_double (a / b)"

definition fsub :: "rat \<Rightarrow> rat \<Rightarrow> rat" where
  "fsub a b = round_double (a - b)"

subsection \<open>The similarity scorer\<close>

text \<open>
  \<^verbatim>\<open>String.prototype.toLowerCase\<close> is the lower-case mapping of the Unicode character
  database that the ECMAScript library applies; it may change the length of a string. The
  scorer and the fuzzy resolver take it as the parameter \<open>toLowerCase\<close>, a function on strings
  of which nothing is assumed.
\<close>

text \<open>\<^verbatim>\<open>s.includes(t)\<close>: \<open>t\<close> occurs in \<open>s\<close> at some position.\<close>

fun String_includes :: "'a list \<Rightarrow> 'a list \<Rightarrow> bool" where
  "String_includes [] t = (t = [])"
| "String_includes (x # xs) t = (prefix t (x # xs) \<or> String_includes xs t)"

text \<open>
  The matrix of \<^verbatim>\<open>calculateSimilarity\<close>: \<open>length s2 + 1\<close> rows of \<open>length s1 + 1\<close> zeros,
  then the first row, the first column, and the cells row by row. Each \<^verbatim>\<open>for\<close> loop is a
  \<open>fold\<close> over its index range, with the matrix as the state.
\<close>

definition levenshteinMatrix :: "'a list \<Rightarrow> 'a list \<Rightarrow> nat list list" where
  "levenshteinMatrix s1 s2 =
     (let matrix0 = replicate (length s2 + 1) (replicate (length s1 + 1) 0);
          matrix1 = fold (\<lambda>i m. m[0 := (m ! 0)[i := i]]) [0..<length s1 + 1] matrix0;
          matrix2 = fold (\<lambda>j m. m[j := (m ! j)[0 := j]]) [0..<length s2 + 1] matrix1
      in fold (\<lambda>j m.
           fold (\<lambda>i m.
             let cost = (if s1 ! (i - 1) = s2 ! (j - 1) then 0 else 1)
             in m[j := (m ! j)[i :=
                  min (min (m ! j ! (i - 1) + 1) (m ! (j - 1) ! i + 1))
                      (m ! (j - 1) ! (i - 1) + cost)]])
             [1..<length s1 + 1] m)
           [1..<length s2 + 1] matrix2)"

definition calculateSimilarity ::
    "(jsstring \<Rightarrow> jsstring) \<Rightarrow> jsstring \<Rightarrow> jsstring \<Rightarrow> rat" where
  "calculateSimilarity toLowerCase str1 str2 =
     (let s1 = toLowerCase str1; s2 = toLowerCase str2
      in if s1 = s2 then 1
         else if String_includes s1 s2 \<or> String_includes s2 s1 then round_double (8 / 10)
         else let matrix = levenshteinMatrix s1 s2;
                  maxLength = max (length s1) (length s2)
              in if maxLength = 0 then 1
                 else fsub 1 (fdiv (of_nat (matrix ! length s2 ! length s1)) (of_nat maxLength)))"

subsection \<open>The fuzzy resolver\<close>

text \<open>
  \<^verbatim>\<open>trim\<close> removes, at both ends, the code units that ECMAScript calls white space or line
  terminators: tab, line feed, vertical tab, form feed, carriage return, space, no-break
  space (U+00A0), the byte order mark (U+FEFF), the line and paragraph separators (U+2028,
  U+2029), and the other space separators of Unicode (U+1680, U+2000 to U+200A, U+202F,
  U+205F, U+3000). Each of them is one code unit.
\<close>

definition isWhiteSpace :: "code_unit \<Rightarrow> bool" where
  "isWhiteSpace c \<longleftrightarrow>
     (0x0009 \<le> c \<and> c \<le> 0x000D) \<or> c = 0x0020 \<or> c = 0x00A0 \<or> c = 0x1680 \<or>
     (0x2000 \<le> c \<and> c \<le> 0x200A) \<or> c = 0x2028 \<or> c = 0x2029 \<or> c = 0x202F \<or>
     c = 0x205F \<or> c = 0x3000 \<or> c = 0xFEFF"

definition trim :: "jsstring \<Rightarrow> jsstring" where
  "trim s = rev (dropWhile isWhiteSpace (rev (dropWhile isWhiteSpace s)))"

record ScoredMatch =
  project :: ProjectInfo
  score :: rat

definition fuzzyMatchProjects ::
    "(jsstring \<Rightarrow> jsstring) \<Rightarrow> ProjectInfo list \<Rightarrow> jsstring \<Rightarrow> ScoredMatch list" where
  "fuzzyMatchProjects toLowerCase projects searchTerm =
     (if trim searchTerm = [] then []
      else let matches =
                 map (\<lambda>p. \<lparr> project = p,
                             score = calculateSimilarity toLowerCase (name p) searchTerm \<rparr>)
                   projects
           in Array_sort (\<lambda>a b. fsub (score b) (score a))
                (filter (\<lambda>match. round_double (3 / 10) < score match) matches))"

subsection \<open>The directory scanner\<close>

text \<open>
  What \<^verbatim>\<open>getProjectsList\<close> reads from its environment: the variable
  \<^verbatim>\<open>PLAYCLI_PROJECTS_DIR\<close>, the directory listing (\<^verbatim>\<open>fs.readdir\<close> with file types), the
  modification time of a path (\<^verbatim>\<open>fs.stat\<close>), and \<^verbatim>\<open>path.join\<close>. A rejected promise is
  \<open>Inl\<close> of the error. The function returns the list of records; what it writes with
  \<^verbatim>\<open>console.error\<close> is left out.
\<close>

datatype fs_error = ENOENT | EACCES | ENOTDIR

record dirent =
  entry_name :: jsstring
  isDirectory :: bool

record world =
  PLAYCLI_PROJECTS_DIR :: "jsstring option"
  readdir :: "jsstring \<Rightarrow> fs_error + dirent list"
  stat_mtime :: "jsstring \<Rightarrow> fs_error + int"
  path_join :: "jsstring \<Rightarrow> jsstring \<Rightarrow> jsstring"

text \<open>\<^verbatim>\<open>Promise.all\<close>: the results in order, or the rejection of a promise that rejects.\<close>

fun Promise_all :: "('e + 'a) list \<Rightarrow> 'e + 'a list" where
  "Promise_all [] = Inr []"
| "Promise_all (Inl e # ps) = Inl e"
| "Promise_all (Inr v # ps) = (case Promise_all ps of Inl e \<Rightarrow> Inl e | Inr vs \<Rightarrow> Inr (v # vs))"

definition getProjectsList :: "world \<Rightarrow> ProjectInfo list" where
  "getProjectsList w =
     (case PLAYCLI_PROJECTS_DIR w of
        None \<Rightarrow> []
      | Some projectsDir \<Rightarrow>
          if projectsDir = [] then []
          else (case readdir w projectsDir of
              Inl error \<Rightarrow> []
            | Inr entries \<Rightarrow>
                let projectDirectories =
                      map (\<lambda>entry. (entry_name entry,
                                    path_join w projectsDir (entry_name entry),
                                    path_join w (js ''Projects'') (entry_name entry)))
                        (filter isDirectory entries)
                in (case Promise_all
                       (map (\<lambda>(pname, pfullPath, prelativePath).
                              case stat_mtime w pfullPath of
                                Inl error \<Rightarrow> Inl error
                              | Inr mtime \<Rightarrow>
                                  Inr \<lparr> name = pname, path = pname, fullPath = pfullPath,
                                        modifiedTime = mtime, relativePath = prelativePath \<rparr>)
                          projectDirectories) of
                      Inl error \<Rightarrow> []
                    | Inr projectsWithStats \<Rightarrow> projectsWithStats)))"

subsection \<open>Edit distance, as the specification states it\<close>

text \<open>
  The Levenshtein distance between the first \<open>i\<close> characters of \<open>a\<close> and the first \<open>j\<close>
  characters of \<open>b\<close>, with unit cost for an insertion, a deletion and a substitution.
\<close>

fun lev :: "'a list \<Rightarrow> 'a list \<Rightarrow> nat \<Rightarrow> nat \<Rightarrow> nat" where
  "lev a b 0 j = j"
| "lev a b (Suc i) 0 = Suc i"
| "lev a b (Suc i) (Suc j) =
     min (min (lev a b i (Suc j) + 1) (lev a b (Suc i) j + 1))
         (lev a b i j + (if a ! i = b ! j then 0 else 1))"

definition levenshtein :: "'a list \<Rightarrow> 'a list \<Rightarrow> nat" where
  "levenshtein a b = lev a b (length a) (length b)"

text \<open>
  Edit scripts, as a check of the recurrence: \<open>edits a b n\<close> holds when \<open>a\<close> is turned into \<open>b\<close>
  by keeping characters and \<open>n\<close> insertions, deletions and substitutions of one character.
\<close>

inductive edits :: "'a list \<Rightarrow> 'a list \<Rightarrow> nat \<Rightarrow> bool" where
  edits_Nil: "edits [] [] 0"
| edits_keep: "edits xs ys n \<Longrightarrow> edits (xs @ [x]) (ys @ [x]) n"
| edits_substitute: "edits xs ys n \<Longrightarrow> edits (xs @ [x]) (ys @ [y]) (Suc n)"
| edits_delete: "edits xs ys n \<Longrightarrow> edits (xs @ [x]) ys (Suc n)"
| edits_insert: "edits xs ys n \<Longrightarrow> edits xs (ys @ [y]) (Suc n)"


subsection \<open>The loop invariant of the matrix\<close>

text \<open>
  \<open>matrix_filled s1 s2 j k m\<close>: the matrix \<open>m\<close> has its dimensions, and holds the edit
  distance of the prefixes in the first column, in every row before row \<open>j\<close>, and in row \<open>j\<close>
  before column \<open>k\<close>. It is what the nested loops have established when they reach the cell
  \<open>(j, k)\<close>.
\<close>

definition matrix_filled :: "'a list \<Rightarrow> 'a list \<Rightarrow> nat \<Rightarrow> nat \<Rightarrow> nat list list \<Rightarrow> bool" where
  "matrix_filled s1 s2 j k m \<longleftrightarrow>
     length m = length s2 + 1 \<and>
     (\<forall>j'\<le>length s2. length (m ! j') = length s1 + 1) \<and>
     (\<forall>j'\<le>length s2. \<forall>i'\<le>length s1.
        (j' < j \<or> (j' = j \<and> i' < k) \<or> i' = 0) \<longrightarrow> m ! j' ! i' = lev s1 s2 i' j')"

subsection \<open>Example data\<close>

text \<open>
  For the examples: the fold of the letters \<open>A\<close> to \<open>Z\<close>, which is what \<^verbatim>\<open>toLowerCase\<close> does on
  a string of ASCII characters.
\<close>

definition toLowerCase_ascii :: "jsstring \<Rightarrow> jsstring" where
  "toLowerCase_ascii s = map (\<lambda>c. if 0x41 \<le> c \<and> c \<le> 0x5A then c + 0x20 else c) s"

text \<open>Three project records; the last two have the same modification time.\<close>

definition pA :: ProjectInfo where
  "pA = \<lparr> name = js ''Sample'', path = js ''Sample'', fullPath = js ''/p/Sample'', modifiedTime = 100,
     relativePath = js ''Projects/Sample'' \<rparr>"

definition pB :: ProjectInfo where
  "pB = \<lparr> name = js ''My Test Algorithm'', path = js ''My Test Algorithm'', fullPath = js ''/p/My Test Algorithm'',
     modifiedTime = 200, relativePath = js ''Projects/My Test Algorithm'' \<rparr>"

definition pC :: ProjectInfo where
  "pC = \<lparr> name = js ''Another'', path = js ''Another'', fullPath = js ''/p/Another'', modifiedTime = 200,
     relativePath = js ''Projects/Another'' \<rparr>"

text \<open>
  Two file systems with the root \<^verbatim>\<open>/p\<close>, holding the directories \<open>a\<close> and \<open>b\<close> and a plain
  file. In \<open>w0\<close> the stat of \<^verbatim>\<open>/p/b\<close> fails; in \<open>w1\<close> every stat succeeds.
\<close>

definition w0 :: world where
  "w0 = \<lparr> PLAYCLI_PROJECTS_DIR = Some (js ''/p''),
          readdir = (\<lambda>d. if d = js ''/p''
                          then Inr [\<lparr> entry_name = js ''a'', isDirectory = True \<rparr>,
                                    \<lparr> entry_name = js ''notes.txt'', isDirectory = False \<rparr>,
                                    \<lparr> entry_name = js ''b'', isDirectory = True \<rparr>]
                          else Inl ENOENT),
          stat_mtime = (\<lambda>f. if f = js ''/p/a'' then Inr 100 else Inl EACCES),
          path_join = (\<lambda>a b. a @ (js ''/'') @ b) \<rparr>"

definition w1 :: world where
  "w1 = w0 \<lparr> stat_mtime := (\<lambda>f. if f = js ''/p/a'' then Inr 100 else Inr 200) \<rparr>"

section \<open>Properties\<close>

subsection \<open>The paginator\<close>

lemma ceiling_rat_div: "\<lceil>rat_of_int a / rat_of_int b\<rceil> = - ((- a) div b)"
proof -
  have "\<lceil>rat_of_int a / rat_of_int b\<rceil> = - \<lfloor>rat_of_int (- a) / rat_of_int b\<rfloor>"
    by (simp add: ceiling_def)
  then show ?thesis by (simp only: floor_divide_of_int_eq)
qed

lemma Math_ceil_div_ceiling:
  "b \<noteq> 0 \<Longrightarrow> Math_ceil_div a b = Fin \<lceil>rat_of_int a / rat_of_int b\<rceil>"
  by (simp only: ceiling_rat_div) (simp add: Math_ceil_div_def)

lemma ceiling_pages_bounds:
  assumes "1 \<le> (p::int)" "0 \<le> n"
  shows "n \<le> \<lceil>rat_of_int n / rat_of_int p\<rceil> * p"
    and "0 \<le> \<lceil>rat_of_int n / rat_of_int p\<rceil>"
    and "0 < n \<Longrightarrow> 1 \<le> \<lceil>rat_of_int n / rat_of_int p\<rceil>"
proof -
  let ?c = "\<lceil>rat_of_int n / rat_of_int p\<rceil>"
  have p: "0 < rat_of_int p" using assms by simp
  have "rat_of_int n / rat_of_int p \<le> of_int ?c" by (rule le_of_int_ceiling)
  then have "rat_of_int n \<le> of_int ?c * of_int p" by (simp only: pos_divide_le_eq[OF p])
  then have "rat_of_int n \<le> rat_of_int (?c * p)" by simp
  then show "n \<le> ?c * p" by (simp only: of_int_le_iff)
  have "0 \<le> rat_of_int n / rat_of_int p" using assms by simp
  then show "0 \<le> ?c" by (simp add: zero_le_ceiling)
  show "1 \<le> ?c" if "0 < n"
  proof -
    have "0 < rat_of_int n / rat_of_int p" using that p by simp
    then show ?thesis by simp
  qed
qed

lemma Array_slice_Fin:
  assumes "0 \<le> a" "0 \<le> k"
  shows "Array_slice xs (Fin a) (Fin (a + k)) = take (nat k) (drop (nat a) xs)"
proof (cases "a + k \<le> int (length xs)")
  case True
  with assms have "nat (a + k) - nat a = nat k" by linarith
  with assms True show ?thesis by (simp add: Array_slice_def Let_def min_def)
next
  case False
  with assms have "length xs - nat a \<le> nat k" by linarith
  with assms False show ?thesis by (simp add: Array_slice_def Let_def min_def)
qed

lemma concat_chunks:
  "concat (map (\<lambda>k. take p (drop (k * p) xs)) [0..<m]) = take (m * p) xs"
proof (induction m)
  case 0
  show ?case by simp
next
  case (Suc m)
  have "take (m * p) xs @ take p (drop (m * p) xs) = take (m * p + p) xs"
    by (simp add: take_add)
  with Suc show ?case by (simp add: add.commute)
qed

lemma upto_shift: "[1..int m] = map (\<lambda>k. int k + 1) [0..<m]"
proof (induction m)
  case 0
  show ?case by simp
next
  case (Suc m)
  have "[1..int (Suc m)] = [1..int m] @ [int m + 1]"
    using upto_rec2 [of 1 "int (Suc m)"] by (simp add: add.commute)
  with Suc show ?case by simp
qed


lemma paginateResults_pos:
  assumes "1 \<le> pageSize"
    and "tp = \<lceil>rat_of_int (int (length xs)) / rat_of_int pageSize\<rceil>"
    and "sp = min (max page 1) tp"
  shows "paginateResults xs page pageSize =
     \<lparr> items = take (nat pageSize) (drop (nat ((sp - 1) * pageSize)) xs),
       totalPages = Fin tp, currentPage = Fin sp, totalItems = int (length xs) \<rparr>"
    and "0 \<le> tp" and "int (length xs) \<le> tp * pageSize" and "xs \<noteq> [] \<Longrightarrow> 1 \<le> tp"
proof -
  from assms(1) have nz: "pageSize \<noteq> 0" by simp
  show tp0: "0 \<le> tp"
    unfolding assms(2) by (rule ceiling_pages_bounds(2) [OF assms(1)]) simp
  show "int (length xs) \<le> tp * pageSize"
    unfolding assms(2) by (rule ceiling_pages_bounds(1) [OF assms(1)]) simp
  show "1 \<le> tp" if "xs \<noteq> []"
    unfolding assms(2) using that by (intro ceiling_pages_bounds(3) [OF assms(1)]) simp_all
  have sp1: "0 \<le> sp - 1 \<or> (sp = 0 \<and> tp = 0)" using tp0 assms(3) by (auto simp: min_def max_def)
  have "Array_slice xs (Fin ((sp - 1) * pageSize)) (Fin ((sp - 1) * pageSize + pageSize)) =
      take (nat pageSize) (drop (nat ((sp - 1) * pageSize)) xs)"
  proof (cases "0 \<le> sp - 1")
    case True
    then show ?thesis using assms(1) by (intro Array_slice_Fin) simp_all
  next
    case False
    with sp1 have "sp = 0" "tp = 0" by simp_all
    with \<open>int (length xs) \<le> tp * pageSize\<close> have "xs = []" by simp
    then show ?thesis by (simp add: Array_slice_def)
  qed
  moreover have "Math_ceil_div (int (length xs)) pageSize = Fin tp"
    unfolding assms(2) using nz by (rule Math_ceil_div_ceiling)
  ultimately show "paginateResults xs page pageSize =
     \<lparr> items = take (nat pageSize) (drop (nat ((sp - 1) * pageSize)) xs),
       totalPages = Fin tp, currentPage = Fin sp, totalItems = int (length xs) \<rparr>"
    by (simp add: paginateResults_def Let_def assms(3))
qed

text \<open>
  Claim C6. For a non-empty sequence, a page size of at least 1 and any integer requested
  page, the paginator reports \<open>tp = \<lceil>totalItems / pageSize\<rceil>\<close> pages, serves the page
  \<open>sp = clamp(requestedPage, 1, tp)\<close>, which lies in \<open>[1, tp]\<close>, and returns the elements
  with indices in \<open>[(sp - 1) * pageSize, (sp - 1) * pageSize + pageSize)\<close> that exist
  (\<open>take\<close> and \<open>drop\<close> clip to the length). With 25 items, page size 10 and requested page
  1000 this is page 3 with the elements 20 to 24.
\<close>

theorem paginate_clamp_slice:
  assumes "xs \<noteq> []" and "1 \<le> pageSize"
  shows "\<exists>tp sp.
     tp = \<lceil>rat_of_int (int (length xs)) / rat_of_int pageSize\<rceil> \<and>
     sp = max 1 (min page tp) \<and> 1 \<le> sp \<and> sp \<le> tp \<and>
     paginateResults xs page pageSize =
       \<lparr> items = take (nat pageSize) (drop (nat ((sp - 1) * pageSize)) xs),
         totalPages = Fin tp,
         currentPage = Fin sp,
         totalItems = int (length xs) \<rparr>"
proof -
  define tp where "tp = \<lceil>rat_of_int (int (length xs)) / rat_of_int pageSize\<rceil>"
  define sp where "sp = min (max page 1) tp"
  note facts = paginateResults_pos [OF assms(2) tp_def sp_def]
  have tp: "1 \<le> tp" using facts(4) assms(1) .
  then have "sp = max 1 (min page tp)" "1 \<le> sp" "sp \<le> tp"
    by (simp_all add: sp_def min_def max_def)
  with facts(1) tp_def show ?thesis by blast
qed

theorem paginate_clamp_slice_witness:
  "paginateResults [0..<25] 1000 10 =
     \<lparr> items = [20, 21, 22, 23, 24], totalPages = Fin 3, currentPage = Fin 3, totalItems = 25 \<rparr>"
proof -
  have ne: "[0..<25] \<noteq> ([]::nat list)" by simp
  have c: "\<lceil>rat_of_int (int (length [0..<25])) / rat_of_int 10\<rceil> = 3"
    by (simp only: ceiling_rat_div) simp
  have "take (nat 10) (drop (nat ((3 - 1) * 10)) [0..<25]) = [20, 21, 22, 23, 24::nat]"
    by (simp add: upt_rec)
  with paginate_clamp_slice [OF ne, of 10 1000] c show ?thesis
    by (simp only: ) simp
qed

text \<open>
  Claim C5. For every sequence and every page size of at least 1, the reported number of
  pages \<open>tp\<close> is an integer, and the items of the pages 1 to \<open>tp\<close>, one after the other, are
  the original sequence: nothing is repeated, nothing is left out.
\<close>

theorem paginate_concat:
  assumes "1 \<le> pageSize"
  shows "\<exists>tp. totalPages (paginateResults xs page pageSize) = Fin tp \<and>
     concat (map (\<lambda>k. items (paginateResults xs k pageSize)) [1..tp]) = xs"
proof -
  define tp where "tp = \<lceil>rat_of_int (int (length xs)) / rat_of_int pageSize\<rceil>"
  define p where "p = nat pageSize"
  define m where "m = nat tp"
  note facts = paginateResults_pos [OF assms tp_def refl]
  have tp: "tp = int m" using facts(2) by (simp add: m_def)
  have ps: "pageSize = int p" using assms by (simp add: p_def)
  have page: "items (paginateResults xs (int k + 1) pageSize) = take p (drop (k * p) xs)"
    if "k < m" for k
  proof -
    from that tp have "min (max (int k + 1) 1) tp = int k + 1" by simp
    moreover have "nat (int k * pageSize) = k * p" by (simp add: ps nat_mult_distrib)
    ultimately show ?thesis
      by (simp add: facts(1) p_def)
  qed
  have "concat (map (\<lambda>k. items (paginateResults xs k pageSize)) [1..tp]) =
      concat (map (\<lambda>k. items (paginateResults xs (int k + 1) pageSize)) [0..<m])"
    by (simp add: tp upto_shift comp_def)
  also have "\<dots> = concat (map (\<lambda>k. take p (drop (k * p) xs)) [0..<m])"
    using page by (intro arg_cong [where f = concat] map_cong) simp_all
  also have "\<dots> = take (m * p) xs" by (rule concat_chunks)
  also have "\<dots> = xs"
  proof -
    have "int (length xs) \<le> int (m * p)" using facts(3) by (simp add: tp ps)
    then have "length xs \<le> m * p" by (simp only: of_nat_le_iff)
    then show ?thesis by simp
  qed
  finally show ?thesis by (simp add: facts(1))
qed

theorem paginate_concat_witness:
  "totalPages (paginateResults [0..<5] 1 2) = Fin 3 \<and>
   concat (map (\<lambda>k. items (paginateResults [0..<5] k 2)) [1..3]) = [0, 1, 2, 3, 4::nat]"
proof -
  have t: "totalPages (paginateResults [0..<5::nat] 1 2) = Fin 3"
    by (simp add: paginateResults_def Math_ceil_div_def)
  from paginate_concat [of 2 "[0..<5::nat]" 1] t
  have "concat (map (\<lambda>k. items (paginateResults [0..<5::nat] k 2)) [1..3]) = [0..<5]"
    by auto
  with t show ?thesis by (simp add: upt_rec)
qed

text \<open>
  Claim C1, as the code has it. For every page size of at least 1 and every requested page,
  the paginator returns for the empty sequence no items, 0 total pages, current page 0 and
  0 total items: \<open>\<lceil>0 / pageSize\<rceil> = 0\<close>, and \<^verbatim>\<open>Math.min(Math.max(page, 1), 0)\<close> is 0. The
  result \<open>totalPages = 1\<close>, \<open>currentPage = 1\<close> of the claim is not what it returns.
\<close>

theorem paginate_empty:
  "1 \<le> pageSize \<Longrightarrow>
     paginateResults [] page pageSize =
       \<lparr> items = [], totalPages = Fin 0, currentPage = Fin 0, totalItems = 0 \<rparr>"
  by (simp add: paginateResults_def Math_ceil_div_def Array_slice_def)

theorem paginate_empty_witness:
  "paginateResults ([]::nat list) 3 10 =
       \<lparr> items = [], totalPages = Fin 0, currentPage = Fin 0, totalItems = 0 \<rparr>"
  using paginate_empty [of 10 3] by simp

theorem paginate_empty_counterexample:
  "paginateResults ([]::nat list) 3 10 \<noteq>
       \<lparr> items = [], totalPages = Fin 1, currentPage = Fin 1, totalItems = 0 \<rparr>"
  by (simp add: paginateResults_def Math_ceil_div_def)

subsection \<open>The recency sorter and the latest project\<close>

lemma sort_insert_insort_key:
  fixes key :: "'a \<Rightarrow> 'k::linordered_ab_group_add"
  assumes "\<And>x y. (compareFn x y \<le> 0) = (key y \<le> key x)"
  shows "sort_insert compareFn x ys = insort_key (\<lambda>x. - key x) x ys"
  by (induction ys) (simp_all add: assms)

lemma Array_sort_sort_key:
  fixes key :: "'a \<Rightarrow> 'k::linordered_ab_group_add"
  assumes "\<And>x y. (compareFn x y \<le> 0) = (key y \<le> key x)"
  shows "Array_sort compareFn xs = sort_key (\<lambda>x. - key x) xs"
proof -
  have "sort_insert compareFn = insort_key (\<lambda>x. - key x)"
    by (intro ext) (rule sort_insert_insort_key [OF assms])
  then show ?thesis by (simp add: Array_sort_def sort_key_def)
qed

lemma Array_sort_descending:
  fixes key :: "'a \<Rightarrow> 'k::linordered_ab_group_add"
  assumes "\<And>x y. (compareFn x y \<le> 0) = (key y \<le> key x)"
  shows "sorted_wrt (\<lambda>a b. key b \<le> key a) (Array_sort compareFn xs)"
proof -
  have "sorted (map (\<lambda>x. - key x) (sort_key (\<lambda>x. - key x) xs))"
    by (rule sorted_sort_key)
  then show ?thesis
    by (simp add: Array_sort_sort_key [OF assms] sorted_map)
qed

lemma Array_sort_mset:
  fixes key :: "'a \<Rightarrow> 'k::linordered_ab_group_add"
  assumes "\<And>x y. (compareFn x y \<le> 0) = (key y \<le> key x)"
  shows "mset (Array_sort compareFn xs) = mset xs"
  by (simp add: Array_sort_sort_key [OF assms])

lemma Array_sort_stable:
  fixes key :: "'a \<Rightarrow> 'k::linordered_ab_group_add"
  assumes "\<And>x y. (compareFn x y \<le> 0) = (key y \<le> key x)"
  shows "filter (\<lambda>x. key x = k) (Array_sort compareFn xs) = filter (\<lambda>x. key x = k) xs"
  using sort_key_stable [of "\<lambda>x. - key x" "- k" xs]
  by (simp add: Array_sort_sort_key [OF assms])

lemma sortProjectsByDate_facts:
  shows sortProjectsByDate_descending:
      "sorted_wrt (\<lambda>a b. modifiedTime b \<le> modifiedTime a) (sortProjectsByDate projects)"
    and sortProjectsByDate_mset: "mset (sortProjectsByDate projects) = mset projects"
    and sortProjectsByDate_stable:
      "filter (\<lambda>p. modifiedTime p = t) (sortProjectsByDate projects) =
       filter (\<lambda>p. modifiedTime p = t) projects"
proof -
  have cmp: "(modifiedTime y - modifiedTime x \<le> 0) = (modifiedTime y \<le> modifiedTime x)"
    for x y :: ProjectInfo
    by simp
  show "sorted_wrt (\<lambda>a b. modifiedTime b \<le> modifiedTime a) (sortProjectsByDate projects)"
    unfolding sortProjectsByDate_def by (rule Array_sort_descending [OF cmp])
  show "mset (sortProjectsByDate projects) = mset projects"
    unfolding sortProjectsByDate_def by (rule Array_sort_mset [OF cmp])
  show "filter (\<lambda>p. modifiedTime p = t) (sortProjectsByDate projects) =
       filter (\<lambda>p. modifiedTime p = t) projects"
    unfolding sortProjectsByDate_def by (rule Array_sort_stable [OF cmp])
qed

text \<open>
  Claim C7. \<^verbatim>\<open>sortProjectsByDate\<close>, called on a reference \<open>projects\<close> into a store \<open>h\<close> of
  arrays, returns a reference to a new array (\<open>sorted = length h\<close>, an index the old store
  does not have) and leaves every array of the old store, the argument among them, as it
  was. The new array holds the value-level result \<open>sortProjectsByDate (h ! projects)\<close>: its
  modification times are non-increasing, it has the same records as the input, and for every
  time \<open>t\<close> the records with that time stand in the same order as in the input (the sort is
  stable).
\<close>

theorem sortProjectsByDate_sorted_stable:
  assumes "projects < length h"
  shows "\<exists>h' sorted.
     sortProjectsByDate_store h projects = (h', sorted) \<and>
     sorted = length h \<and> length h' = length h + 1 \<and>
     (\<forall>r<length h. h' ! r = h ! r) \<and>
     h' ! sorted = sortProjectsByDate (h ! projects) \<and>
     sorted_wrt (\<lambda>a b. modifiedTime b \<le> modifiedTime a) (h' ! sorted) \<and>
     mset (h' ! sorted) = mset (h ! projects) \<and>
     (\<forall>t. filter (\<lambda>p. modifiedTime p = t) (h' ! sorted) =
          filter (\<lambda>p. modifiedTime p = t) (h ! projects))"
proof -
  define h' where "h' = (h @ [h ! projects])[length h := sortProjectsByDate (h ! projects)]"
  have run: "sortProjectsByDate_store h projects = (h', length h)"
    by (simp add: sortProjectsByDate_store_def spread_def sort_in_place_def h'_def
        sortProjectsByDate_def)
  have new: "h' ! length h = sortProjectsByDate (h ! projects)"
    by (simp add: h'_def)
  have old: "h' ! r = h ! r" if "r < length h" for r
    using that by (simp add: h'_def nth_append)
  have len: "length h' = length h + 1"
    by (simp add: h'_def)
  show ?thesis
    using run new old len
    by (simp add: sortProjectsByDate_descending sortProjectsByDate_mset
        sortProjectsByDate_stable)
qed

lemma filter_eq_Cons_first:
  assumes "filter P xs = p # rest"
  shows "\<exists>i<length xs. xs ! i = p \<and> (\<forall>j<i. \<not> P (xs ! j))"
proof -
  from assms obtain us vs where xs: "xs = us @ p # vs" and us: "\<forall>u\<in>set us. \<not> P u"
    by (auto simp: filter_eq_Cons_iff)
  have "xs ! length us = p" by (simp add: xs)
  moreover have "length us < length xs" by (simp add: xs)
  moreover have "\<not> P (xs ! j)" if "j < length us" for j
    using that us by (simp add: xs nth_append)
  ultimately show ?thesis by blast
qed

text \<open>
  Claim C10. \<^verbatim>\<open>getLatestProject\<close> returns \<^verbatim>\<open>null\<close> exactly for the empty list. For a non-empty
  list it returns the element at some index \<open>i\<close> whose modification time is at least that of
  every element, and every element before index \<open>i\<close> has a strictly smaller time: it is the
  first, in input order, of the elements with the greatest time.
\<close>

theorem getLatestProject_first_latest:
  "(getLatestProject projects = None \<longleftrightarrow> projects = []) \<and>
   (projects \<noteq> [] \<longrightarrow>
      (\<exists>i<length projects.
          getLatestProject projects = Some (projects ! i) \<and>
          (\<forall>q\<in>set projects. modifiedTime q \<le> modifiedTime (projects ! i)) \<and>
          (\<forall>j<i. modifiedTime (projects ! j) < modifiedTime (projects ! i))))"
proof (cases "projects = []")
  case True
  then show ?thesis by (simp add: getLatestProject_def)
next
  case False
  have "mset (sortProjectsByDate projects) \<noteq> {#}"
    using False by (simp add: sortProjectsByDate_mset)
  then obtain p rest where sorted: "sortProjectsByDate projects = p # rest"
    by (cases "sortProjectsByDate projects") auto
  have latest: "getLatestProject projects = Some p"
    using False by (simp add: getLatestProject_def sorted)
  have "set (p # rest) = set projects"
    using sortProjectsByDate_mset [of projects] by (metis sorted set_mset_mset)
  moreover have "\<forall>q\<in>set (p # rest). modifiedTime q \<le> modifiedTime p"
    using sortProjectsByDate_descending [of projects] by (auto simp: sorted)
  ultimately have greatest: "\<forall>q\<in>set projects. modifiedTime q \<le> modifiedTime p"
    by simp
  have "filter (\<lambda>q. modifiedTime q = modifiedTime p) projects =
      p # filter (\<lambda>q. modifiedTime q = modifiedTime p) rest"
    using sortProjectsByDate_stable [of "modifiedTime p" projects] by (simp add: sorted)
  from filter_eq_Cons_first [OF this]
  obtain i where i: "i < length projects" "projects ! i = p"
      and first: "\<forall>j<i. modifiedTime (projects ! j) \<noteq> modifiedTime p"
    by blast
  have "modifiedTime (projects ! j) < modifiedTime (projects ! i)" if "j < i" for j
  proof -
    from that i have "projects ! j \<in> set projects" by simp
    with greatest have "modifiedTime (projects ! j) \<le> modifiedTime p" by blast
    with first that show ?thesis by (simp add: i less_le)
  qed
  with i latest greatest False show ?thesis by auto
qed

lemma sortProjectsByDate_example: "sortProjectsByDate [pA, pB, pC] = [pB, pC, pA]"
  by (simp add: sortProjectsByDate_def Array_sort_def pA_def pB_def pC_def)

theorem sortProjectsByDate_sorted_stable_witness:
  "\<exists>h'. sortProjectsByDate_store [[pA, pB, pC]] 0 = (h', 1) \<and>
     h' ! 0 = [pA, pB, pC] \<and> h' ! 1 = [pB, pC, pA]"
proof -
  have "0 < length [[pA, pB, pC]]" by simp
  from sortProjectsByDate_sorted_stable [OF this]
  obtain h' sorted where
    "sortProjectsByDate_store [[pA, pB, pC]] 0 = (h', sorted)"
    "sorted = length [[pA, pB, pC]]"
    "\<forall>r<length [[pA, pB, pC]]. h' ! r = [[pA, pB, pC]] ! r"
    "h' ! sorted = sortProjectsByDate ([[pA, pB, pC]] ! 0)"
    by blast
  then show ?thesis by (simp add: sortProjectsByDate_example)
qed

theorem getLatestProject_first_latest_witness:
  "getLatestProject [pA, pB, pC] = Some pB"
proof -
  have t: "modifiedTime pA = 100" "modifiedTime pB = 200" "modifiedTime pC = 200"
    by (simp_all add: pA_def pB_def pC_def)
  have ne: "[pA, pB, pC] \<noteq> []" by simp
  from getLatestProject_first_latest [of "[pA, pB, pC]"] ne
  obtain i where i: "i < length [pA, pB, pC]"
      "getLatestProject [pA, pB, pC] = Some ([pA, pB, pC] ! i)"
    and mx: "\<forall>q\<in>set [pA, pB, pC]. modifiedTime q \<le> modifiedTime ([pA, pB, pC] ! i)"
    and fst: "\<forall>j<i. modifiedTime ([pA, pB, pC] ! j) < modifiedTime ([pA, pB, pC] ! i)"
    by blast
  from i(1) have "i = 0 \<or> i = 1 \<or> i = 2" by (simp add: less_Suc_eq) linarith
  then consider "i = 0" | "i = 1" | "i = 2" by blast
  then show ?thesis
  proof cases
    case 1
    with mx t show ?thesis by simp
  next
    case 2
    with i show ?thesis by simp
  next
    case 3
    have "(1::nat) < 2" by simp
    with fst 3 have "modifiedTime ([pA, pB, pC] ! 1) < modifiedTime ([pA, pB, pC] ! 2)"
      by blast
    with t show ?thesis by simp
  qed
qed

subsection \<open>The directory scanner\<close>

lemma Promise_all_Inr:
  "\<forall>p\<in>set ps. \<not> isl p \<Longrightarrow> Promise_all ps = Inr (map projr ps)"
  by (induction ps rule: Promise_all.induct) simp_all

lemma Promise_all_Inl:
  "\<exists>p\<in>set ps. isl p \<Longrightarrow> isl (Promise_all ps)"
  by (induction ps rule: Promise_all.induct) (auto split: sum.splits)

text \<open>Without a root that can be listed the scan returns the empty list.\<close>

lemma getProjectsList_no_root:
  "PLAYCLI_PROJECTS_DIR w = None \<Longrightarrow> getProjectsList w = []"
  "PLAYCLI_PROJECTS_DIR w = Some [] \<Longrightarrow> getProjectsList w = []"
  "PLAYCLI_PROJECTS_DIR w = Some projectsDir \<Longrightarrow> readdir w projectsDir = Inl e \<Longrightarrow>
     getProjectsList w = []"
  by (simp_all add: getProjectsList_def)

text \<open>
  Claim C2, as the code has it. When the root is set and \<^verbatim>\<open>readdir\<close> lists it, one failing
  \<^verbatim>\<open>stat\<close> among the directory entries makes the whole scan return the empty list (the
  rejection passes through \<^verbatim>\<open>Promise.all\<close> to the one \<^verbatim>\<open>catch\<close> of the function); when
  every \<^verbatim>\<open>stat\<close> succeeds the scan returns one record for each directory entry, in the order
  of the listing. No entry is skipped on its own.
\<close>

theorem getProjectsList_all_or_nothing:
  assumes "PLAYCLI_PROJECTS_DIR w = Some projectsDir" and "projectsDir \<noteq> []"
    and "readdir w projectsDir = Inr entries"
  shows "getProjectsList w =
     (if \<exists>entry\<in>set entries. isDirectory entry \<and>
            isl (stat_mtime w (path_join w projectsDir (entry_name entry)))
      then []
      else map (\<lambda>entry.
             \<lparr> name = entry_name entry, path = entry_name entry,
               fullPath = path_join w projectsDir (entry_name entry),
               modifiedTime = projr (stat_mtime w (path_join w projectsDir (entry_name entry))),
               relativePath = path_join w (js ''Projects'') (entry_name entry) \<rparr>)
           (filter isDirectory entries))"
proof -
  define stat_one where "stat_one = (\<lambda>(pname, pfullPath, prelativePath).
      case stat_mtime w pfullPath of
        Inl error \<Rightarrow> Inl error
      | Inr mtime \<Rightarrow> Inr \<lparr> name = pname, path = pname, fullPath = pfullPath,
            modifiedTime = mtime, relativePath = prelativePath \<rparr>)"
  define dirs where "dirs = map (\<lambda>entry. (entry_name entry,
      path_join w projectsDir (entry_name entry),
      path_join w (js ''Projects'') (entry_name entry))) (filter isDirectory entries)"
  have scan: "getProjectsList w =
      (case Promise_all (map stat_one dirs) of Inl error \<Rightarrow> [] | Inr ps \<Rightarrow> ps)"
    using assms by (simp add: getProjectsList_def stat_one_def dirs_def)
  show ?thesis
  proof (cases "\<exists>entry\<in>set entries. isDirectory entry \<and>
            isl (stat_mtime w (path_join w projectsDir (entry_name entry)))")
    case True
    then have "\<exists>p\<in>set (map stat_one dirs). isl p"
      by (auto simp: dirs_def stat_one_def split: sum.splits)
    then have "isl (Promise_all (map stat_one dirs))" by (rule Promise_all_Inl)
    with True scan show ?thesis by (auto simp: isl_def)
  next
    case False
    then have ok: "\<forall>p\<in>set (map stat_one dirs). \<not> isl p"
      by (auto simp: dirs_def stat_one_def split: sum.splits)
    have "map projr (map stat_one dirs) =
        map (\<lambda>entry.
             \<lparr> name = entry_name entry, path = entry_name entry,
               fullPath = path_join w projectsDir (entry_name entry),
               modifiedTime = projr (stat_mtime w (path_join w projectsDir (entry_name entry))),
               relativePath = path_join w (js ''Projects'') (entry_name entry) \<rparr>)
           (filter isDirectory entries)"
      using False by (auto simp: dirs_def stat_one_def split: sum.splits)
    with scan Promise_all_Inr [OF ok] show ?thesis
      unfolding if_not_P [OF False] by simp
  qed
qed

text \<open>
  In \<open>w0\<close> the root is listed and the stat of \<open>a\<close> succeeds, yet the failing stat of \<open>b\<close>
  empties the result: \<open>a\<close> is not returned.
\<close>

theorem getProjectsList_all_or_nothing_counterexample:
  "readdir w0 (js ''/p'') =
      Inr [\<lparr> entry_name = js ''a'', isDirectory = True \<rparr>,
           \<lparr> entry_name = js ''notes.txt'', isDirectory = False \<rparr>,
           \<lparr> entry_name = js ''b'', isDirectory = True \<rparr>] \<and>
   stat_mtime w0 (path_join w0 (js ''/p'') (js ''a'')) = Inr 100 \<and>
   stat_mtime w0 (path_join w0 (js ''/p'') (js ''b'')) = Inl EACCES \<and>
   getProjectsList w0 = []"
  by (simp add: w0_def getProjectsList_def js_def)

theorem getProjectsList_all_or_nothing_witness:
  "getProjectsList w0 = [] \<and>
   getProjectsList w1 =
     [\<lparr> name = js ''a'', path = js ''a'', fullPath = js ''/p/a'', modifiedTime = 100,
        relativePath = js ''Projects/a'' \<rparr>,
      \<lparr> name = js ''b'', path = js ''b'', fullPath = js ''/p/b'', modifiedTime = 200,
        relativePath = js ''Projects/b'' \<rparr>]"
proof -
  have "PLAYCLI_PROJECTS_DIR w0 = Some (js ''/p'')" "(js ''/p'') \<noteq> []"
    "readdir w0 (js ''/p'') =
      Inr [\<lparr> entry_name = js ''a'', isDirectory = True \<rparr>,
           \<lparr> entry_name = js ''notes.txt'', isDirectory = False \<rparr>,
           \<lparr> entry_name = js ''b'', isDirectory = True \<rparr>]"
    by (simp_all add: w0_def js_def)
  from getProjectsList_all_or_nothing [OF this]
  have a: "getProjectsList w0 = []" by (simp add: w0_def js_def)
  have "PLAYCLI_PROJECTS_DIR w1 = Some (js ''/p'')" "(js ''/p'') \<noteq> []"
    "readdir w1 (js ''/p'') =
      Inr [\<lparr> entry_name = js ''a'', isDirectory = True \<rparr>,
           \<lparr> entry_name = js ''notes.txt'', isDirectory = False \<rparr>,
           \<lparr> entry_name = js ''b'', isDirectory = True \<rparr>]"
    by (simp_all add: w0_def w1_def js_def)
  from getProjectsList_all_or_nothing [OF this]
  have "getProjectsList w1 =
     [\<lparr> name = js ''a'', path = js ''a'', fullPath = js ''/p/a'', modifiedTime = 100,
        relativePath = js ''Projects/a'' \<rparr>,
      \<lparr> name = js ''b'', path = js ''b'', fullPath = js ''/p/b'', modifiedTime = 200,
        relativePath = js ''Projects/b'' \<rparr>]"
    by (simp add: w0_def w1_def js_def)
  with a show ?thesis by simp
qed


subsection \<open>The fuzzy resolver: blank queries\<close>

lemma trim_eq_Nil: "trim s = [] \<longleftrightarrow> (\<forall>c\<in>set s. isWhiteSpace c)"
proof
  assume "trim s = []"
  then have "\<forall>c\<in>set (dropWhile isWhiteSpace s). isWhiteSpace c"
    by (simp add: trim_def dropWhile_eq_Nil_conv)
  then have "dropWhile isWhiteSpace s = []"
    using hd_dropWhile [of isWhiteSpace s] by (cases "dropWhile isWhiteSpace s") auto
  then show "\<forall>c\<in>set s. isWhiteSpace c" by (simp add: dropWhile_eq_Nil_conv)
next
  assume "\<forall>c\<in>set s. isWhiteSpace c"
  then have d: "dropWhile isWhiteSpace s = []" by (simp only: dropWhile_eq_Nil_conv)
  show "trim s = []" by (simp only: trim_def d dropWhile.simps rev.simps)
qed

text \<open>
  Claim C9. For every candidate sequence, a query that is empty or consists of white space
  only (every code unit is one that \<^verbatim>\<open>trim\<close> removes) yields the empty list of matches.
\<close>

theorem fuzzyMatchProjects_blank_query:
  "\<forall>c\<in>set searchTerm. isWhiteSpace c \<Longrightarrow>
     fuzzyMatchProjects toLowerCase projects searchTerm = []"
  by (simp add: fuzzyMatchProjects_def trim_eq_Nil)

theorem fuzzyMatchProjects_blank_query_witness:
  "fuzzyMatchProjects toLowerCase_ascii [pA, pB, pC] [] = [] \<and>
   fuzzyMatchProjects toLowerCase_ascii [pA, pB, pC]
     [0x0020, 0x0009, 0x000A, 0x00A0, 0x3000, 0xFEFF] = []"
proof -
  have "\<forall>c\<in>set ([]::jsstring). isWhiteSpace c" by simp
  moreover have "\<forall>c\<in>set [0x0020, 0x0009, 0x000A, 0x00A0, 0x3000, 0xFEFF]. isWhiteSpace c"
    by (simp add: isWhiteSpace_def)
  ultimately show ?thesis
    using fuzzyMatchProjects_blank_query [of "[]" toLowerCase_ascii "[pA, pB, pC]"]
      fuzzyMatchProjects_blank_query
        [of "[0x0020, 0x0009, 0x000A, 0x00A0, 0x3000, 0xFEFF]" toLowerCase_ascii "[pA, pB, pC]"]
    by blast
qed

subsection \<open>Rounding to a double\<close>

lemma round_half_even_bounds:
  shows round_half_even_ge: "rat_of_int a \<le> y \<Longrightarrow> a \<le> round_half_even y"
    and round_half_even_le: "y \<le> rat_of_int b \<Longrightarrow> round_half_even y \<le> b"
proof -
  have fl: "\<lfloor>y\<rfloor> \<le> round_half_even y" and ce: "round_half_even y \<le> \<lceil>y\<rceil>"
  proof -
    show "\<lfloor>y\<rfloor> \<le> round_half_even y" by (simp add: round_half_even_def Let_def)
    have "\<lfloor>y\<rfloor> + 1 = \<lceil>y\<rceil>" if "0 < y - of_int \<lfloor>y\<rfloor>"
      using that by (metis ceiling_altdef diff_gt_0_iff_gt less_irrefl)
    then show "round_half_even y \<le> \<lceil>y\<rceil>"
      by (auto simp: round_half_even_def Let_def not_less)
  qed
  show "a \<le> round_half_even y" if "rat_of_int a \<le> y"
    using that fl le_floor_iff [of a y] by linarith
  show "round_half_even y \<le> b" if "y \<le> rat_of_int b"
    using that ce ceiling_le_iff [of y b] by linarith
qed

lemma ilog2_bounds:
  assumes "0 < x"
  shows "2 powi (ilog2 x) \<le> x" and "x < 2 powi (ilog2 x + 1)"
proof -
  obtain p q where pq: "quotient_of x = (p, q)" by (cases "quotient_of x")
  then have q: "0 < q" by (rule quotient_of_denom_pos)
  have x: "x = of_int p / of_int q" using pq by (rule quotient_of_div)
  with assms q have p: "0 < p" by (simp add: zero_less_divide_iff)
  define bp where "bp = nat (bitlen p)"
  define bq where "bq = nat (bitlen q)"
  have bl: "bitlen p = int bp" "bitlen q = int bq"
    by (simp_all add: bp_def bq_def bitlen_nonneg)
  have "0 < bitlen p" "0 < bitlen q"
    using p q bitlen_eq_zero_iff [of p] bitlen_eq_zero_iff [of q] bitlen_nonneg [of p] bitlen_nonneg [of q]
    by linarith+
  then have pos: "0 < bp" "0 < bq" by (simp_all add: bp_def bq_def)
  have "2 ^ (bp - 1) \<le> p" "p < 2 ^ bp" "2 ^ (bq - 1) \<le> q" "q < 2 ^ bq"
    using bitlen_bounds [OF p] bitlen_bounds [OF q] pos
    by (simp_all add: bp_def bq_def nat_diff_distrib)
  then have P: "(2::rat) ^ (bp - 1) \<le> of_int p" "rat_of_int p < 2 ^ bp"
    and Q: "(2::rat) ^ (bq - 1) \<le> of_int q" "rat_of_int q < 2 ^ bq"
    by (metis of_int_le_iff of_int_less_iff of_int_numeral of_int_power)+
  have qpos: "0 < rat_of_int q" using q by simp
  have upper: "x < 2 powi (int bp - int bq + 1)"
  proof -
    have "x \<le> of_int p / 2 ^ (bq - 1)"
      unfolding x using Q(1) p qpos by (intro divide_left_mono mult_pos_pos) simp_all
    also have "\<dots> < 2 ^ bp / 2 ^ (bq - 1)"
      using P(2) by (simp add: divide_strict_right_mono)
    also have "\<dots> = 2 powi (int bp - int (bq - 1))"
      by (simp add: power_int_diff)
    also have "int bp - int (bq - 1) = int bp - int bq + 1" using pos by simp
    finally show ?thesis .
  qed
  have lower: "2 powi (int bp - int bq - 1) \<le> x"
  proof -
    have "int bp - int bq - 1 = int (bp - 1) - int bq" using pos by simp
    then have "2 powi (int bp - int bq - 1) = (2::rat) powi (int (bp - 1) - int bq)"
      by (simp only:)
    also have "\<dots> = 2 ^ (bp - 1) / 2 ^ bq"
      by (simp add: power_int_diff)
    also have "\<dots> \<le> of_int p / 2 ^ bq"
      using P(1) by (simp add: divide_right_mono)
    also have "\<dots> \<le> of_int p / of_int q"
      using Q(2) p qpos by (intro divide_left_mono mult_pos_pos) simp_all
    finally show ?thesis by (simp add: x)
  qed
  have e: "ilog2 x = (if 2 powi (int bp - int bq) \<le> x then int bp - int bq else int bp - int bq - 1)"
    by (simp add: ilog2_def pq bl Let_def)
  show "2 powi (ilog2 x) \<le> x" using lower by (simp add: e)
  show "x < 2 powi (ilog2 x + 1)" using upper by (simp add: e not_le)
qed


lemma round_double_pos_bounds:
  assumes "0 < x"
  shows "2 powi (ilog2 x) \<le> round_double x" and "round_double x \<le> 2 powi (ilog2 x + 1)"
proof -
  define e where "e = ilog2 x"
  define u :: rat where "u = 2 powi (e - 52)"
  define n where "n = round_half_even (x / u)"
  have u: "0 < u" by (simp add: u_def)
  have lo: "2 powi e = 2 ^ 52 * u" and hi: "2 powi (e + 1) = 2 ^ 53 * u"
  proof -
    have "e = 52 + (e - 52)" by simp
    then have "(2::rat) powi e = 2 powi (52 + (e - 52))" by (rule arg_cong)
    also have "\<dots> = 2 powi 52 * 2 powi (e - 52)" by (rule power_int_add) simp
    finally show "2 powi e = 2 ^ 52 * u" by (simp add: u_def)
    have "e + 1 = 53 + (e - 52)" by simp
    then have "(2::rat) powi (e + 1) = 2 powi (53 + (e - 52))" by (rule arg_cong)
    also have "\<dots> = 2 powi 53 * 2 powi (e - 52)" by (rule power_int_add) simp
    finally show "2 powi (e + 1) = 2 ^ 53 * u" by (simp add: u_def)
  qed
  have "2 ^ 52 * u \<le> x" "x < 2 ^ 53 * u"
    using ilog2_bounds [OF assms] by (simp_all add: e_def [symmetric] lo hi)
  then have y: "rat_of_int (2 ^ 52) \<le> x / u" "x / u \<le> rat_of_int (2 ^ 53)"
    using u by (simp_all add: pos_le_divide_eq pos_divide_le_eq)
  have "2 ^ 52 \<le> n" "n \<le> 2 ^ 53"
    unfolding n_def
    using round_half_even_ge [OF y(1)] round_half_even_le [OF y(2)] by blast+
  then have "rat_of_int (2 ^ 52) \<le> of_int n" "rat_of_int n \<le> of_int (2 ^ 53)"
    by (simp_all only: of_int_le_iff)
  then have n: "2 ^ 52 * u \<le> of_int n * u" "of_int n * u \<le> 2 ^ 53 * u"
    using u by simp_all
  have rd: "round_double x = of_int n * u"
    using assms by (simp add: round_double_def Let_def e_def u_def n_def)
  show "2 powi (ilog2 x) \<le> round_double x"
    using n(1) by (simp only: rd lo e_def [symmetric])
  show "round_double x \<le> 2 powi (ilog2 x + 1)"
    using n(2) by (simp only: rd hi e_def [symmetric])
qed

text \<open>Some doubles, as the fractions they are: \<^verbatim>\<open>0.1\<close>, \<^verbatim>\<open>0.8\<close> and \<^verbatim>\<open>1 / 3\<close>.\<close>

lemma round_double_examples:
  "round_double (1 / 10) = 3602879701896397 / 2 ^ 55"
  "round_double (8 / 10) = 3602879701896397 / 2 ^ 52"
  "round_double (1 / 3) = 6004799503160661 / 2 ^ 54"
  "round_double 1 = 1"
  by code_simp+

lemma round_double_minus: "round_double (- x) = - round_double x"
  by (simp add: round_double_def Let_def)

lemma round_double_pos: "0 < x \<Longrightarrow> 0 < round_double x"
proof -
  assume "0 < x"
  from round_double_pos_bounds(1) [OF this] have "2 powi (ilog2 x) \<le> round_double x" .
  moreover have "(0::rat) < 2 powi (ilog2 x)" by simp
  ultimately show ?thesis by linarith
qed

lemma round_double_sign:
  shows round_double_le_0_iff: "round_double x \<le> 0 \<longleftrightarrow> x \<le> 0"
    and round_double_ge_0_iff: "0 \<le> round_double x \<longleftrightarrow> 0 \<le> x"
proof -
  have zero: "round_double 0 = 0" by (simp add: round_double_def)
  have neg: "round_double x < 0" if "x < 0"
    using round_double_pos [of "- x"] that by (simp add: round_double_minus)
  show "round_double x \<le> 0 \<longleftrightarrow> x \<le> 0"
    using round_double_pos [of x] neg zero by (cases "x = 0") (auto simp: not_le [symmetric])
  show "0 \<le> round_double x \<longleftrightarrow> 0 \<le> x"
    using round_double_pos [of x] neg zero by (cases "x = 0") (auto simp: not_le [symmetric])
qed

lemma round_double_unit_interval:
  assumes "0 \<le> x" "x \<le> 1"
  shows "0 \<le> round_double x" and "round_double x \<le> 1"
proof -
  show "0 \<le> round_double x" using assms(1) by (simp add: round_double_ge_0_iff)
  show "round_double x \<le> 1"
  proof (cases "x = 0")
    case True
    then show ?thesis by (simp add: round_double_def)
  next
    case False
    with assms have pos: "0 < x" by simp
    have "ilog2 x \<le> 0"
    proof (rule ccontr)
      assume "\<not> ilog2 x \<le> 0"
      then have "1 \<le> ilog2 x" by simp
      then have "(2::rat) powi 1 \<le> 2 powi (ilog2 x)" by (rule power_int_increasing) simp
      with ilog2_bounds(1) [OF pos] assms(2) show False by simp
    qed
    then have "ilog2 x + 1 \<le> 0 \<or> ilog2 x = 0" by linarith
    then show ?thesis
    proof
      assume "ilog2 x + 1 \<le> 0"
      then have "(2::rat) powi (ilog2 x + 1) \<le> 2 powi 0"
        by (rule power_int_increasing) simp
      then have "(2::rat) powi (ilog2 x + 1) \<le> 1" by simp
      with round_double_pos_bounds(2) [OF pos] show ?thesis by linarith
    next
      assume e: "ilog2 x = 0"
      with ilog2_bounds(1) [OF pos] assms(2) have "x = 1" by simp
      then show ?thesis by (simp add: round_double_def ilog2_def round_half_even_def Let_def)
    qed
  qed
qed

text \<open>The rounding error is at most half a unit in the last place.\<close>

lemma round_half_even_error: "\<bar>rat_of_int (round_half_even y) - y\<bar> \<le> 1 / 2"
proof -
  have "0 \<le> y - of_int \<lfloor>y\<rfloor>" "y - of_int \<lfloor>y\<rfloor> < 1" by linarith+
  then show ?thesis by (auto simp: round_half_even_def Let_def abs_le_iff not_less)
qed

lemma round_double_error:
  assumes "0 < x"
  shows "\<bar>round_double x - x\<bar> \<le> 2 powi (ilog2 x - 52) / 2"
proof -
  define u :: rat where "u = 2 powi (ilog2 x - 52)"
  have u: "0 < u" by (simp add: u_def)
  have rd: "round_double x = of_int (round_half_even (x / u)) * u"
    using assms by (simp add: round_double_def Let_def u_def)
  have "round_double x - x = (of_int (round_half_even (x / u)) - x / u) * u"
    using u by (simp add: rd left_diff_distrib)
  then have "\<bar>round_double x - x\<bar> = \<bar>of_int (round_half_even (x / u)) - x / u\<bar> * u"
    using u by (simp add: abs_mult)
  also have "\<dots> \<le> 1 / 2 * u"
    using u round_half_even_error [of "x / u"] by (intro mult_right_mono) simp_all
  finally show ?thesis by (simp add: u_def)
qed

lemma round_double_error_unit:
  assumes "0 \<le> x" "x \<le> 1"
  shows "\<bar>round_double x - x\<bar> \<le> 1 / 2 ^ 53"
proof (cases "x = 0")
  case True
  then show ?thesis by (simp add: round_double_def)
next
  case False
  with assms have pos: "0 < x" by simp
  have "ilog2 x \<le> 0"
  proof (rule ccontr)
    assume "\<not> ilog2 x \<le> 0"
    then have "1 \<le> ilog2 x" by simp
    then have "(2::rat) powi 1 \<le> 2 powi (ilog2 x)" by (rule power_int_increasing) simp
    with ilog2_bounds(1) [OF pos] assms(2) show False by simp
  qed
  then have "ilog2 x - 52 \<le> - 52" by simp
  then have "(2::rat) powi (ilog2 x - 52) \<le> 2 powi (- 52)"
    by (rule power_int_increasing) simp
  then have "(2::rat) powi (ilog2 x - 52) / 2 \<le> 2 powi (- 52) / 2" by simp
  also have "\<dots> = 1 / 2 ^ 53" by (simp add: power_int_minus_divide)
  finally show ?thesis using round_double_error [OF pos] by linarith
qed

subsection \<open>The matrix loops compute the edit distance\<close>

lemma fold_upt_invariant:
  assumes "a \<le> b" and "P a m"
    and "\<And>k m. a \<le> k \<Longrightarrow> k < b \<Longrightarrow> P k m \<Longrightarrow> P (Suc k) (f k m)"
  shows "P b (fold f [a..<b] m)"
  using assms(1,3)
proof (induction b)
  case 0
  with assms(2) show ?case by simp
next
  case (Suc b)
  show ?case
  proof (cases "a = Suc b")
    case True
    with assms(2) show ?thesis by simp
  next
    case False
    with Suc.prems(1) have ab: "a \<le> b" by simp
    have "P b (fold f [a..<b] m)"
      using ab Suc.prems(2) by (intro Suc.IH) simp_all
    then have "P (Suc b) (f b (fold f [a..<b] m))"
      using ab by (intro Suc.prems(2)) simp_all
    then show ?thesis using ab by simp
  qed
qed

lemma cell_update:
  assumes "j < length m" and "i < length (m ! j)"
  shows "length (m[j := (m ! j)[i := v]]) = length m"
    and "length (m[j := (m ! j)[i := v]] ! j') = length (m ! j')"
    and "m[j := (m ! j)[i := v]] ! j' ! i' = (if j' = j \<and> i' = i then v else m ! j' ! i')"
proof -
  show "length (m[j := (m ! j)[i := v]]) = length m" by simp
  show "length (m[j := (m ! j)[i := v]] ! j') = length (m ! j')"
    using assms(1) by (cases "j' = j") simp_all
  show "m[j := (m ! j)[i := v]] ! j' ! i' = (if j' = j \<and> i' = i then v else m ! j' ! i')"
    using assms by (cases "j' = j"; cases "i' = i") simp_all
qed

lemma lev_first_row: "lev a b i 0 = i"
  by (cases i) simp_all

lemma matrix_init:
  fixes s1 s2 :: "'a list"
  defines "matrix0 \<equiv> replicate (length s2 + 1) (replicate (length s1 + 1) (0::nat))"
  defines "matrix1 \<equiv> fold (\<lambda>i m. m[0 := (m ! 0)[i := i]]) [0..<length s1 + 1] matrix0"
  defines "matrix2 \<equiv> fold (\<lambda>j m. m[j := (m ! j)[0 := j]]) [0..<length s2 + 1] matrix1"
  shows "matrix_filled s1 s2 1 1 matrix2"
proof -
  let ?dims = "\<lambda>m. length m = length s2 + 1 \<and> (\<forall>j'\<le>length s2. length (m ! j') = length s1 + 1)"
  have d0: "?dims matrix0"
    unfolding matrix0_def by (simp del: replicate.simps add: less_Suc_eq_le)
  have "?dims matrix1 \<and> (\<forall>i<length s1 + 1. matrix1 ! 0 ! i = i)"
    unfolding matrix1_def
  proof (rule fold_upt_invariant [where P = "\<lambda>k m. ?dims m \<and> (\<forall>i<k. m ! 0 ! i = i)"])
    show "0 \<le> length s1 + 1" by simp
    show "?dims matrix0 \<and> (\<forall>i<0. matrix0 ! 0 ! i = i)" using d0 by simp
    fix k m
    assume k: "k < length s1 + 1" and inv: "?dims m \<and> (\<forall>i<k. m ! 0 ! i = i)"
    then have in_range: "0 < length m" "k < length (m ! 0)" by simp_all
    show "?dims (m[0 := (m ! 0)[k := k]]) \<and> (\<forall>i<Suc k. m[0 := (m ! 0)[k := k]] ! 0 ! i = i)"
      using inv in_range by (simp add: cell_update [OF in_range] less_Suc_eq)
  qed
  then have d1: "?dims matrix1" and row: "\<forall>i\<le>length s1. matrix1 ! 0 ! i = i" by simp_all
  have "(?dims matrix2 \<and> (\<forall>i\<le>length s1. matrix2 ! 0 ! i = i)) \<and>
      (\<forall>j<length s2 + 1. matrix2 ! j ! 0 = j)"
    unfolding matrix2_def
  proof (rule fold_upt_invariant [where P = "\<lambda>k m.
      (?dims m \<and> (\<forall>i\<le>length s1. m ! 0 ! i = i)) \<and> (\<forall>j<k. m ! j ! 0 = j)"])
    show "0 \<le> length s2 + 1" by simp
    show "(?dims matrix1 \<and> (\<forall>i\<le>length s1. matrix1 ! 0 ! i = i)) \<and> (\<forall>j<0. matrix1 ! j ! 0 = j)"
      using d1 row by simp
    fix k m
    assume k: "k < length s2 + 1"
      and inv: "(?dims m \<and> (\<forall>i\<le>length s1. m ! 0 ! i = i)) \<and> (\<forall>j<k. m ! j ! 0 = j)"
    then have in_range: "k < length m" "0 < length (m ! k)" by simp_all
    show "(?dims (m[k := (m ! k)[0 := k]]) \<and> (\<forall>i\<le>length s1. m[k := (m ! k)[0 := k]] ! 0 ! i = i)) \<and>
        (\<forall>j<Suc k. m[k := (m ! k)[0 := k]] ! j ! 0 = j)"
      using inv in_range by (simp add: cell_update [OF in_range] less_Suc_eq)
  qed
  then have d2: "?dims matrix2" and row2: "\<forall>i\<le>length s1. matrix2 ! 0 ! i = i"
    and col2: "\<forall>j\<le>length s2. matrix2 ! j ! 0 = j"
    by (simp_all add: less_Suc_eq_le)
  have "matrix2 ! j' ! i' = lev s1 s2 i' j'"
    if "j' \<le> length s2" "i' \<le> length s1" "j' < 1 \<or> (j' = 1 \<and> i' < 1) \<or> i' = 0" for j' i'
  proof (cases "i' = 0")
    case True
    with col2 that(1) show ?thesis by simp
  next
    case False
    with that(3) have "j' = 0" by auto
    with row2 that(2) show ?thesis by (simp add: lev_first_row)
  qed
  with d2 show ?thesis unfolding matrix_filled_def by blast
qed


lemma matrix_cell_step:
  assumes inv: "matrix_filled s1 s2 j k m"
    and j: "1 \<le> j" "j \<le> length s2" and k: "1 \<le> k" "k \<le> length s1"
  shows "matrix_filled s1 s2 j (Suc k)
     (m[j := (m ! j)[k :=
         min (min (m ! j ! (k - 1) + 1) (m ! (j - 1) ! k + 1))
             (m ! (j - 1) ! (k - 1) + (if s1 ! (k - 1) = s2 ! (j - 1) then 0 else 1))]])"
proof -
  obtain j0 k0 where jk: "j = Suc j0" "k = Suc k0"
    using j(1) k(1) by (metis One_nat_def Suc_le_D)
  from inv have len: "length m = length s2 + 1"
    and rows: "\<forall>j'\<le>length s2. length (m ! j') = length s1 + 1"
    and cells: "\<And>j' i'. j' \<le> length s2 \<Longrightarrow> i' \<le> length s1 \<Longrightarrow>
        j' < j \<or> (j' = j \<and> i' < k) \<or> i' = 0 \<Longrightarrow> m ! j' ! i' = lev s1 s2 i' j'"
    unfolding matrix_filled_def by blast+
  have in_range: "j < length m" "k < length (m ! j)"
    using len rows j k by simp_all
  have left: "m ! j ! (k - 1) = lev s1 s2 k0 (Suc j0)"
    using cells [of j "k - 1"] j k by (simp add: jk)
  have up: "m ! (j - 1) ! k = lev s1 s2 (Suc k0) j0"
    using cells [of "j - 1" k] j k by (simp add: jk)
  have diag: "m ! (j - 1) ! (k - 1) = lev s1 s2 k0 j0"
    using cells [of "j - 1" "k - 1"] j k by (simp add: jk)
  define v where "v = min (min (m ! j ! (k - 1) + 1) (m ! (j - 1) ! k + 1))
      (m ! (j - 1) ! (k - 1) + (if s1 ! (k - 1) = s2 ! (j - 1) then 0 else 1))"
  have v: "v = lev s1 s2 k j"
    unfolding v_def left up diag by (simp add: jk)
  define m' where "m' = m[j := (m ! j)[k := v]]"
  have "length m' = length s2 + 1"
    using len by (simp add: m'_def)
  moreover have "\<forall>j'\<le>length s2. length (m' ! j') = length s1 + 1"
    using rows by (simp add: m'_def cell_update(2) [OF in_range])
  moreover have "m' ! j' ! i' = lev s1 s2 i' j'"
    if "j' \<le> length s2" "i' \<le> length s1" "j' < j \<or> (j' = j \<and> i' < Suc k) \<or> i' = 0"
    for j' i'
  proof (cases "j' = j \<and> i' = k")
    case True
    then show ?thesis by (simp add: m'_def cell_update(3) [OF in_range] v)
  next
    case False
    with that(3) have "j' < j \<or> (j' = j \<and> i' < k) \<or> i' = 0" by auto
    from cells [OF that(1,2) this] have "m ! j' ! i' = lev s1 s2 i' j'" .
    moreover have "m' ! j' ! i' = m ! j' ! i'"
      unfolding m'_def cell_update(3) [OF in_range] using False by (rule if_not_P)
    ultimately show ?thesis by simp
  qed
  ultimately have "matrix_filled s1 s2 j (Suc k) m'"
    unfolding matrix_filled_def by blast
  then show ?thesis by (simp only: m'_def v_def)
qed

lemma matrix_row_step:
  assumes inv: "matrix_filled s1 s2 j 1 m" and j: "1 \<le> j" "j \<le> length s2"
  defines "cell \<equiv> \<lambda>i (m::nat list list). m[j := (m ! j)[i :=
         min (min (m ! j ! (i - 1) + 1) (m ! (j - 1) ! i + 1))
             (m ! (j - 1) ! (i - 1) + (if s1 ! (i - 1) = s2 ! (j - 1) then 0 else 1))]]"
  shows "matrix_filled s1 s2 (Suc j) 1 (fold cell [1..<length s1 + 1] m)"
proof -
  have "matrix_filled s1 s2 j (length s1 + 1) (fold cell [1..<length s1 + 1] m)"
  proof (rule fold_upt_invariant [where P = "matrix_filled s1 s2 j" and f = cell])
    show "1 \<le> length s1 + 1" by simp
    show "matrix_filled s1 s2 j 1 m" by (rule inv)
    fix k m
    assume "1 \<le> k" "k < length s1 + 1" "matrix_filled s1 s2 j k m"
    then show "matrix_filled s1 s2 j (Suc k) (cell k m)"
      unfolding cell_def using j by (intro matrix_cell_step) simp_all
  qed
  then have len: "length (fold cell [1..<length s1 + 1] m) = length s2 + 1"
    and rows: "\<forall>j'\<le>length s2. length (fold cell [1..<length s1 + 1] m ! j') = length s1 + 1"
    and cells: "\<And>j' i'. j' \<le> length s2 \<Longrightarrow> i' \<le> length s1 \<Longrightarrow>
        j' < j \<or> (j' = j \<and> i' < length s1 + 1) \<or> i' = 0 \<Longrightarrow>
        fold cell [1..<length s1 + 1] m ! j' ! i' = lev s1 s2 i' j'"
    unfolding matrix_filled_def by blast+
  have "fold cell [1..<length s1 + 1] m ! j' ! i' = lev s1 s2 i' j'"
    if "j' \<le> length s2" "i' \<le> length s1" "j' < Suc j \<or> (j' = Suc j \<and> i' < 1) \<or> i' = 0"
    for j' i'
  proof -
    from that(2,3) have "j' < j \<or> (j' = j \<and> i' < length s1 + 1) \<or> i' = 0" by auto
    from cells [OF that(1,2) this] show ?thesis .
  qed
  with len rows show ?thesis unfolding matrix_filled_def by blast
qed

lemma levenshteinMatrix_filled:
  "matrix_filled s1 s2 (length s2 + 1) 1 (levenshteinMatrix s1 s2)"
proof -
  define row where "row = (\<lambda>j (m::nat list list). fold (\<lambda>i m. m[j := (m ! j)[i :=
         min (min (m ! j ! (i - 1) + 1) (m ! (j - 1) ! i + 1))
             (m ! (j - 1) ! (i - 1) + (if s1 ! (i - 1) = s2 ! (j - 1) then 0 else 1))]])
        [1..<length s1 + 1] m)"
  define matrix2 where "matrix2 =
      fold (\<lambda>j m. m[j := (m ! j)[0 := j]]) [0..<length s2 + 1]
       (fold (\<lambda>i m. m[0 := (m ! 0)[i := i]]) [0..<length s1 + 1]
         (replicate (length s2 + 1) (replicate (length s1 + 1) 0)))"
  have run: "levenshteinMatrix s1 s2 = fold row [1..<length s2 + 1] matrix2"
    unfolding levenshteinMatrix_def Let_def row_def matrix2_def ..
  have "matrix_filled s1 s2 (length s2 + 1) 1 (fold row [1..<length s2 + 1] matrix2)"
  proof (rule fold_upt_invariant [where P = "\<lambda>j. matrix_filled s1 s2 j 1" and f = row])
    show "1 \<le> length s2 + 1" by simp
    show "matrix_filled s1 s2 1 1 matrix2"
      unfolding matrix2_def by (rule matrix_init)
    fix j m
    assume "1 \<le> j" "j < length s2 + 1" "matrix_filled s1 s2 j 1 m"
    then show "matrix_filled s1 s2 (Suc j) 1 (row j m)"
      unfolding row_def by (intro matrix_row_step) simp_all
  qed
  then show ?thesis by (simp only: run)
qed

lemma levenshteinMatrix_levenshtein:
  "levenshteinMatrix s1 s2 ! length s2 ! length s1 = levenshtein s1 s2"
  using levenshteinMatrix_filled [of s1 s2]
  unfolding matrix_filled_def levenshtein_def by simp

lemma lev_commute: "lev a b i j = lev b a j i"
  by (induction a b i j rule: lev.induct) (simp_all add: lev_first_row min.commute eq_commute)

lemma lev_le_max: "lev a b i j \<le> max i j"
  by (induction a b i j rule: lev.induct) (auto simp: min_le_iff_disj)

lemma levenshtein_commute: "levenshtein a b = levenshtein b a"
  by (simp add: levenshtein_def lev_commute)

lemma levenshtein_le_max: "levenshtein a b \<le> max (length a) (length b)"
  by (simp add: levenshtein_def lev_le_max)

text \<open>The recurrence gives the least number of edits of a script.\<close>

lemma lev_prefix:
  "take i a = take i a' \<Longrightarrow> take j b = take j b' \<Longrightarrow> lev a b i j = lev a' b' i j"
proof (induction a b i j rule: lev.induct)
  case (1 a b j)
  show ?case by simp
next
  case (2 a b i)
  show ?case by simp
next
  case (3 a b i j)
  have a: "take i a = take i a'" and b: "take j b = take j b'"
    using 3(4,5) by (metis take_take min.absorb1 le_SucI order_refl)+
  have "a ! i = take (Suc i) a ! i" "b ! j = take (Suc j) b ! j" by simp_all
  with 3(4,5) have nth: "a ! i = a' ! i" "b ! j = b' ! j" by simp_all
  show ?case
    using "3.IH"(1) [OF a 3(5)] "3.IH"(2) [OF 3(4) b] "3.IH"(3) [OF a b] nth by simp
qed

lemma levenshtein_Nil: "levenshtein [] b = length b" "levenshtein a [] = length a"
  by (simp_all add: levenshtein_def lev_first_row)

lemma levenshtein_snoc:
  "levenshtein (xs @ [x]) (ys @ [y]) =
     min (min (levenshtein xs (ys @ [y]) + 1) (levenshtein (xs @ [x]) ys + 1))
         (levenshtein xs ys + (if x = y then 0 else 1))"
proof -
  have "lev (xs @ [x]) (ys @ [y]) (length xs) (Suc (length ys)) = levenshtein xs (ys @ [y])"
    using lev_prefix [of "length xs" "xs @ [x]" xs "Suc (length ys)" "ys @ [y]" "ys @ [y]"]
    by (simp add: levenshtein_def)
  moreover have "lev (xs @ [x]) (ys @ [y]) (Suc (length xs)) (length ys) = levenshtein (xs @ [x]) ys"
    using lev_prefix [of "Suc (length xs)" "xs @ [x]" "xs @ [x]" "length ys" "ys @ [y]" ys]
    by (simp add: levenshtein_def)
  moreover have "lev (xs @ [x]) (ys @ [y]) (length xs) (length ys) = levenshtein xs ys"
    using lev_prefix [of "length xs" "xs @ [x]" xs "length ys" "ys @ [y]" ys]
    by (simp add: levenshtein_def)
  ultimately show ?thesis
    by (simp add: levenshtein_def)
qed

lemma edits_from_Nil: "edits [] b (length b)"
  by (induction b rule: rev_induct) (auto intro: edits.intros)

lemma edits_to_Nil: "edits a [] (length a)"
  by (induction a rule: rev_induct) (auto intro: edits.intros)

lemma edits_levenshtein: "edits a b (levenshtein a b)"
proof (induction a arbitrary: b rule: rev_induct)
  case Nil
  show ?case by (simp add: levenshtein_Nil edits_from_Nil)
next
  case (snoc x xs)
  show ?case
  proof (induction b rule: rev_induct)
    case Nil
    show ?case using edits_to_Nil [of "xs @ [x]"] by (simp add: levenshtein_Nil)
  next
    case (snoc y ys)
    let ?d = "levenshtein (xs @ [x]) (ys @ [y])"
    have "?d = levenshtein xs (ys @ [y]) + 1 \<or> ?d = levenshtein (xs @ [x]) ys + 1 \<or>
        ?d = levenshtein xs ys + (if x = y then 0 else 1)"
      unfolding levenshtein_snoc [of xs x ys y] by (auto simp: min_def)
    then show ?case
    proof (elim disjE)
      assume "?d = levenshtein xs (ys @ [y]) + 1"
      with edits_delete [OF \<open>\<And>b. edits xs b (levenshtein xs b)\<close> [of "ys @ [y]"], of x]
      show ?thesis by simp
    next
      assume "?d = levenshtein (xs @ [x]) ys + 1"
      with edits_insert [OF snoc.IH, of y] show ?thesis by simp
    next
      assume d: "?d = levenshtein xs ys + (if x = y then 0 else 1)"
      show ?thesis
      proof (cases "x = y")
        case True
        with d edits_keep [OF \<open>\<And>b. edits xs b (levenshtein xs b)\<close> [of ys], of x]
        show ?thesis by simp
      next
        case False
        with d edits_substitute [OF \<open>\<And>b. edits xs b (levenshtein xs b)\<close> [of ys], of x y]
        show ?thesis by simp
      qed
    qed
  qed
qed

lemma levenshtein_delete: "levenshtein (xs @ [x]) ys \<le> levenshtein xs ys + 1"
  by (cases ys rule: rev_cases) (simp_all add: levenshtein_Nil levenshtein_snoc min_le_iff_disj)

lemma levenshtein_insert: "levenshtein xs (ys @ [y]) \<le> levenshtein xs ys + 1"
  by (cases xs rule: rev_cases) (simp_all add: levenshtein_Nil levenshtein_snoc min_le_iff_disj)

lemma levenshtein_le_edits: "edits a b n \<Longrightarrow> levenshtein a b \<le> n"
proof (induction rule: edits.induct)
  case edits_Nil
  show ?case by (simp add: levenshtein_Nil)
next
  case (edits_keep xs ys n x)
  then show ?case by (simp add: levenshtein_snoc min_le_iff_disj)
next
  case (edits_substitute xs ys n x y)
  then show ?case by (auto simp: levenshtein_snoc min_le_iff_disj)
next
  case (edits_delete xs ys n x)
  with levenshtein_delete [of xs x ys] show ?case by simp
next
  case (edits_insert xs ys n y)
  with levenshtein_insert [of xs ys y] show ?case by simp
qed

lemma levenshtein_least_edits:
  "edits a b (levenshtein a b)" and "edits a b n \<Longrightarrow> levenshtein a b \<le> n"
  by (rule edits_levenshtein, rule levenshtein_le_edits)

subsection \<open>The similarity scorer\<close>

lemma String_includes_sublist: "String_includes s t \<longleftrightarrow> sublist t s"
  by (induction s) (simp_all add: sublist_Cons_right)

lemma calculateSimilarity_tiers:
  "calculateSimilarity toLowerCase str1 str2 =
     (let s1 = toLowerCase str1; s2 = toLowerCase str2
      in if s1 = s2 then 1
         else if sublist s2 s1 \<or> sublist s1 s2 then round_double (8 / 10)
         else fsub 1 (fdiv (of_nat (levenshtein s1 s2))
                           (of_nat (max (length s1) (length s2)))))"
proof -
  have "max (length s1) (length s2) \<noteq> 0" if "s1 \<noteq> s2" for s1 s2 :: jsstring
    using that by (cases s1; cases s2) simp_all
  then show ?thesis
    by (simp add: calculateSimilarity_def Let_def String_includes_sublist
        levenshteinMatrix_levenshtein)
qed

text \<open>
  Two strings with the same fold score 1: for instance \<open>[0xC9]\<close> and \<open>[0xE9]\<close> (capital and
  small e with acute), which \<^verbatim>\<open>toLowerCase\<close> both maps to \<open>[0xE9]\<close>.
\<close>

lemma calculateSimilarity_equal_fold:
  "toLowerCase a = toLowerCase b \<Longrightarrow> calculateSimilarity toLowerCase a b = 1"
  by (simp add: calculateSimilarity_def)

lemma score_unit_interval:
  assumes "d \<le> m" and "0 < m"
  shows "0 \<le> fsub 1 (fdiv (of_nat d) (of_nat m))" and "fsub 1 (fdiv (of_nat d) (of_nat m)) \<le> 1"
proof -
  have q: "0 \<le> rat_of_nat d / of_nat m" "rat_of_nat d / of_nat m \<le> 1"
    using assms by simp_all
  note y = round_double_unit_interval [OF q]
  then have "0 \<le> 1 - round_double (of_nat d / of_nat m)"
    "1 - round_double (of_nat d / of_nat m) \<le> 1" by simp_all
  note z = round_double_unit_interval [OF this]
  show "0 \<le> fsub 1 (fdiv (of_nat d) (of_nat m))" using z(1) by (simp add: fsub_def fdiv_def)
  show "fsub 1 (fdiv (of_nat d) (of_nat m)) \<le> 1" using z(2) by (simp add: fsub_def fdiv_def)
qed

lemma score_rounding_error:
  assumes "d \<le> m" and "0 < m"
  shows "\<bar>fsub 1 (fdiv (of_nat d) (of_nat m)) - (1 - rat_of_nat d / of_nat m)\<bar> \<le> 1 / 2 ^ 52"
proof -
  define q where "q = rat_of_nat d / of_nat m"
  define y where "y = round_double q"
  have q: "0 \<le> q" "q \<le> 1" using assms by (simp_all add: q_def)
  have y: "0 \<le> y" "y \<le> 1" unfolding y_def by (rule round_double_unit_interval [OF q])+
  have e1: "\<bar>y - q\<bar> \<le> 1 / 2 ^ 53" unfolding y_def by (rule round_double_error_unit [OF q])
  have "0 \<le> 1 - y" "1 - y \<le> 1" using y by simp_all
  then have e2: "\<bar>round_double (1 - y) - (1 - y)\<bar> \<le> 1 / 2 ^ 53"
    by (rule round_double_error_unit)
  have "\<bar>round_double (1 - y) - (1 - q)\<bar> \<le> 1 / 2 ^ 53 + 1 / 2 ^ 53"
    using e1 e2 by linarith
  then show ?thesis by (simp add: fsub_def fdiv_def y_def q_def)
qed

text \<open>
  Claim C4. For every pair of strings and whatever function \<open>toLowerCase\<close> is: with \<open>s1\<close>,
  \<open>s2\<close> the case-folded strings, the score is 1 when they are equal;
  otherwise it is the double \<^verbatim>\<open>0.8\<close> when one occurs in the other as a contiguous substring
  (\<open>sublist\<close>, in either direction); otherwise it is \<open>1 - d / max (length s1) (length s2)\<close>,
  where \<open>d\<close> is the Levenshtein distance \<open>levenshtein s1 s2\<close> that the matrix loops compute,
  the quotient and the difference being those of double arithmetic (\<open>fdiv\<close>, \<open>fsub\<close>). The
  score differs from the value of the same three rules in exact arithmetic by at most
  \<open>2\<^sup>-\<^sup>5\<^sup>2\<close>. Two empty strings score 1, and every score lies between 0 and 1.
\<close>

theorem calculateSimilarity_tiered:
  "calculateSimilarity toLowerCase str1 str2 =
     (let s1 = toLowerCase str1; s2 = toLowerCase str2
      in if s1 = s2 then 1
         else if sublist s2 s1 \<or> sublist s1 s2 then round_double (8 / 10)
         else fsub 1 (fdiv (of_nat (levenshtein s1 s2))
                           (of_nat (max (length s1) (length s2))))) \<and>
   \<bar>calculateSimilarity toLowerCase str1 str2 -
     (let s1 = toLowerCase str1; s2 = toLowerCase str2
      in if s1 = s2 then 1
         else if sublist s2 s1 \<or> sublist s1 s2 then 8 / 10
         else 1 - of_nat (levenshtein s1 s2) / of_nat (max (length s1) (length s2)))\<bar>
     \<le> 1 / 2 ^ 52 \<and>
   calculateSimilarity toLowerCase [] [] = 1 \<and>
   0 \<le> calculateSimilarity toLowerCase str1 str2 \<and>
   calculateSimilarity toLowerCase str1 str2 \<le> 1"
proof -
  define s1 where "s1 = toLowerCase str1"
  define s2 where "s2 = toLowerCase str2"
  have tiers: "calculateSimilarity toLowerCase str1 str2 =
     (if s1 = s2 then 1
      else if sublist s2 s1 \<or> sublist s1 s2 then round_double (8 / 10)
      else fsub 1 (fdiv (of_nat (levenshtein s1 s2)) (of_nat (max (length s1) (length s2)))))"
    by (simp add: calculateSimilarity_tiers s1_def s2_def Let_def)
  have c: "0 \<le> round_double (8 / 10)" "round_double (8 / 10) \<le> 1"
    by (rule round_double_unit_interval; simp)+
  have "0 < max (length s1) (length s2)" if "s1 \<noteq> s2"
    using that by (cases s1; cases s2) simp_all
  then have d: "0 \<le> fsub 1 (fdiv (of_nat (levenshtein s1 s2)) (of_nat (max (length s1) (length s2))))"
      "fsub 1 (fdiv (of_nat (levenshtein s1 s2)) (of_nat (max (length s1) (length s2)))) \<le> 1"
    if "s1 \<noteq> s2"
    using that score_unit_interval [OF levenshtein_le_max [of s1 s2]] by blast+
  have bounds: "0 \<le> calculateSimilarity toLowerCase str1 str2"
    "calculateSimilarity toLowerCase str1 str2 \<le> 1"
    using c d by (simp_all add: tiers)
  have empty: "calculateSimilarity toLowerCase [] [] = 1"
    by (simp add: calculateSimilarity_def)
  have "\<bar>round_double (8 / 10) - 8 / 10\<bar> \<le> 1 / 2 ^ 53"
    by (rule round_double_error_unit) simp_all
  then have e8: "\<bar>round_double (8 / 10) - 8 / 10\<bar> \<le> 1 / 2 ^ 52"
    by (rule order_trans) simp
  have ed: "\<bar>fsub 1 (fdiv (of_nat (levenshtein s1 s2)) (of_nat (max (length s1) (length s2)))) -
        (1 - of_nat (levenshtein s1 s2) / of_nat (max (length s1) (length s2)))\<bar> \<le> 1 / 2 ^ 52"
    if "s1 \<noteq> s2"
    using that \<open>s1 \<noteq> s2 \<Longrightarrow> 0 < max (length s1) (length s2)\<close>
      score_rounding_error [OF levenshtein_le_max [of s1 s2]] by blast
  have close: "\<bar>calculateSimilarity toLowerCase str1 str2 -
     (if s1 = s2 then 1
      else if sublist s2 s1 \<or> sublist s1 s2 then 8 / 10
      else 1 - of_nat (levenshtein s1 s2) / of_nat (max (length s1) (length s2)))\<bar>
     \<le> 1 / 2 ^ 52"
  proof (cases "s1 = s2")
    case True
    then show ?thesis by (simp add: tiers)
  next
    case False
    show ?thesis
    proof (cases "sublist s2 s1 \<or> sublist s1 s2")
      case True
      with False e8 show ?thesis by (simp only: tiers if_True if_False)
    next
      case False
      with \<open>s1 \<noteq> s2\<close> ed [OF \<open>s1 \<noteq> s2\<close>] show ?thesis
        by (simp only: tiers if_True if_False)
    qed
  qed
  have "\<bar>calculateSimilarity toLowerCase str1 str2 -
     (let s1 = toLowerCase str1; s2 = toLowerCase str2
      in if s1 = s2 then 1
         else if sublist s2 s1 \<or> sublist s1 s2 then 8 / 10
         else 1 - of_nat (levenshtein s1 s2) / of_nat (max (length s1) (length s2)))\<bar>
     \<le> 1 / 2 ^ 52"
    using close by (simp only: Let_def s1_def s2_def)
  with bounds empty calculateSimilarity_tiers [of toLowerCase str1 str2] show ?thesis
    by (simp only: simp_thms)
qed

theorem calculateSimilarity_tiered_witness:
  "calculateSimilarity toLowerCase_ascii (js ''Sample'') (js ''sample'') = 1 \<and>
   calculateSimilarity toLowerCase_ascii (js ''My Test Algorithm'') (js ''alg'') =
     round_double (8 / 10) \<and>
   calculateSimilarity toLowerCase_ascii (js ''kitten'') (js ''Sitting'') = fsub 1 (fdiv 3 7)"
proof -
  have fold: "toLowerCase_ascii (js ''Sample'') = js ''sample''"
    "toLowerCase_ascii (js ''sample'') = js ''sample''"
    "toLowerCase_ascii (js ''My Test Algorithm'') = js ''my test algorithm''"
    "toLowerCase_ascii (js ''alg'') = js ''alg''"
    "toLowerCase_ascii (js ''kitten'') = js ''kitten''"
    "toLowerCase_ascii (js ''Sitting'') = js ''sitting''"
    by code_simp+
  have sub: "sublist (js ''alg'') (js ''my test algorithm'')"
    "\<not> sublist (js ''sitting'') (js ''kitten'')" "\<not> sublist (js ''kitten'') (js ''sitting'')"
    "js ''my test algorithm'' \<noteq> js ''alg''" "js ''kitten'' \<noteq> js ''sitting''"
    by code_simp+
  have dist: "levenshtein (js ''kitten'') (js ''sitting'') = 3"
    "max (length (js ''kitten'')) (length (js ''sitting'')) = 7"
    by code_simp+
  have "calculateSimilarity toLowerCase_ascii (js ''Sample'') (js ''sample'') = 1"
    using calculateSimilarity_tiered [of toLowerCase_ascii "js ''Sample''" "js ''sample''"]
    by (simp only: fold Let_def) simp
  moreover have "calculateSimilarity toLowerCase_ascii (js ''My Test Algorithm'') (js ''alg'') =
      round_double (8 / 10)"
    using calculateSimilarity_tiered [of toLowerCase_ascii "js ''My Test Algorithm''" "js ''alg''"]
    by (simp only: fold sub Let_def) simp
  moreover have "calculateSimilarity toLowerCase_ascii (js ''kitten'') (js ''Sitting'') =
      fsub 1 (fdiv 3 7)"
    using calculateSimilarity_tiered [of toLowerCase_ascii "js ''kitten''" "js ''Sitting''"]
    by (simp only: fold sub dist Let_def) simp
  ultimately show ?thesis by blast
qed

text \<open>
  Claim C8. The score does not depend on the order of the two strings, whatever function
  \<open>toLowerCase\<close> is.
\<close>

theorem calculateSimilarity_symmetric:
  "calculateSimilarity toLowerCase a b = calculateSimilarity toLowerCase b a"
proof -
  have "levenshtein (toLowerCase a) (toLowerCase b) =
      levenshtein (toLowerCase b) (toLowerCase a)"
    by (rule levenshtein_commute)
  moreover have "max (length (toLowerCase a)) (length (toLowerCase b)) =
      max (length (toLowerCase b)) (length (toLowerCase a))"
    by (rule max.commute)
  ultimately show ?thesis
    by (auto simp: calculateSimilarity_tiers Let_def)
qed

subsection \<open>The fuzzy resolver: threshold and ranking\<close>

text \<open>
  The threshold is compared in double arithmetic. Two names of ten characters at edit
  distance 7 score \<^verbatim>\<open>1 - 7 / 10\<close>, which in doubles is \<^verbatim>\<open>0.30000000000000004\<close>, and this is
  greater than the double \<^verbatim>\<open>0.3\<close>.
\<close>

lemma score_at_threshold:
  "calculateSimilarity toLowerCase_ascii (js ''abcdefghij'') (js ''abcxxxxxxx'') =
     fsub 1 (fdiv 7 10)"
  "fsub 1 (fdiv 7 10) = 1351079888211149 / 2 ^ 52"
  "round_double (3 / 10) = 5404319552844595 / 2 ^ 54"
  "round_double (3 / 10) < fsub 1 (fdiv 7 10)"
  by code_simp+

text \<open>
  Claim C3. For a query with a code unit that \<^verbatim>\<open>trim\<close> does not remove (it is neither
  empty nor white space only), and whatever function \<open>toLowerCase\<close> is, let \<open>scored\<close> pair each
  candidate, in input order, with its score against the query. The result of the fuzzy
  resolver has exactly the pairs of \<open>scored\<close> whose score is greater than the double
  \<^verbatim>\<open>0.3\<close> (as a multiset: none with a score of at most \<^verbatim>\<open>0.3\<close>, none above it missing); its
  scores are non-increasing; and for every score \<open>s\<close> above the threshold the matches with
  that score stand in the order they have in the input.
\<close>

theorem fuzzyMatchProjects_threshold_ranked:
  fixes projects :: "ProjectInfo list" and searchTerm :: jsstring
    and toLowerCase :: "jsstring \<Rightarrow> jsstring"
  assumes "\<exists>c\<in>set searchTerm. \<not> isWhiteSpace c"
  defines "scored \<equiv>
     map (\<lambda>p. \<lparr> project = p, score = calculateSimilarity toLowerCase (name p) searchTerm \<rparr>) projects"
  shows "mset (fuzzyMatchProjects toLowerCase projects searchTerm) =
           mset (filter (\<lambda>m. round_double (3 / 10) < score m) scored) \<and>
         sorted_wrt (\<lambda>a b. score b \<le> score a) (fuzzyMatchProjects toLowerCase projects searchTerm) \<and>
         (\<forall>s. filter (\<lambda>m. score m = s) (fuzzyMatchProjects toLowerCase projects searchTerm) =
              (if round_double (3 / 10) < s then filter (\<lambda>m. score m = s) scored else []))"
proof -
  have cmp: "(fsub (score y) (score x) \<le> 0) = (score y \<le> score x)" for x y :: ScoredMatch
    by (simp add: fsub_def round_double_le_0_iff)
  from assms(1) have "trim searchTerm \<noteq> []" by (simp add: trim_eq_Nil)
  then have run: "fuzzyMatchProjects toLowerCase projects searchTerm =
      Array_sort (\<lambda>a b. fsub (score b) (score a))
        (filter (\<lambda>m. round_double (3 / 10) < score m) scored)"
    by (simp add: fuzzyMatchProjects_def scored_def)
  have "filter (\<lambda>m. score m = s) (filter (\<lambda>m. round_double (3 / 10) < score m) scored) =
      (if round_double (3 / 10) < s then filter (\<lambda>m. score m = s) scored else [])" for s
    by (auto simp: filter_empty_conv intro: filter_cong)
  then show ?thesis
    unfolding run
    by (simp only: Array_sort_mset [OF cmp] Array_sort_descending [OF cmp]
        Array_sort_stable [OF cmp]) simp
qed



lemma scores_alg:
  "calculateSimilarity toLowerCase_ascii (name pB) (js ''alg'') = round_double (8 / 10)"
  "calculateSimilarity toLowerCase_ascii (name pC) (js ''alg'') = fsub 1 (fdiv 6 7)"
  "calculateSimilarity toLowerCase_ascii (name pA) (js ''alg'') = fsub 1 (fdiv 4 6)"
  by code_simp+

lemma threshold_alg:
  "round_double (3 / 10) < round_double (8 / 10)"
  "\<not> round_double (3 / 10) < fsub 1 (fdiv 6 7)"
  "round_double (3 / 10) < fsub 1 (fdiv 4 6)"
  "fsub 1 (fdiv 4 6) \<le> round_double (8 / 10)"
  by code_simp+

theorem fuzzyMatchProjects_threshold_ranked_witness:
  "(\<exists>c\<in>set (js ''alg''). \<not> isWhiteSpace c) \<and>
   mset (fuzzyMatchProjects toLowerCase_ascii [pB, pC, pA] (js ''alg'')) =
     {#\<lparr> project = pB, score = round_double (8 / 10) \<rparr>,
       \<lparr> project = pA, score = fsub 1 (fdiv 4 6) \<rparr>#} \<and>
   sorted_wrt (\<lambda>a b. score b \<le> score a) (fuzzyMatchProjects toLowerCase_ascii [pB, pC, pA] (js ''alg''))"
proof -
  have query: "\<exists>c\<in>set (js ''alg''). \<not> isWhiteSpace c"
    by (simp add: isWhiteSpace_def js_def)
  have "filter (\<lambda>m. round_double (3 / 10) < score m)
      (map (\<lambda>p. \<lparr> project = p, score = calculateSimilarity toLowerCase_ascii (name p) (js ''alg'') \<rparr>) [pB, pC, pA]) =
      [\<lparr> project = pB, score = round_double (8 / 10) \<rparr>,
       \<lparr> project = pA, score = fsub 1 (fdiv 4 6) \<rparr>]"
    by (simp only: list.map filter.simps scores_alg threshold_alg ScoredMatch.select_convs
        if_True if_False)
  with fuzzyMatchProjects_threshold_ranked [OF query, of toLowerCase_ascii "[pB, pC, pA]"] query
  show ?thesis by simp
qed

end
